theory Spec2Isabelle
  imports Main
begin

section \<open>The multipart uploader of \<^verbatim>\<open>src/uploader-presigned.js\<close>\<close>

text \<open>
  The development embeds the class \<^verbatim>\<open>S3MultipartUploaderPresigned\<close>: its constructor,
  \<^verbatim>\<open>getPresignedUrls\<close>, \<^verbatim>\<open>uploadPart\<close>, \<^verbatim>\<open>completeUpload\<close>, \<^verbatim>\<open>abortUpload\<close>,
  \<^verbatim>\<open>upload\<close> and \<^verbatim>\<open>abort\<close>. The classes \<^verbatim>\<open>S3MultipartUploaderDirectPresigned\<close> and
  \<^verbatim>\<open>S3MultipartUploader\<close> have the same constructor defaults and the same retry loop.

  JavaScript numbers are modelled as \<open>int\<close> (exact for the byte counts and part counts of
  the program, which stay below \<open>2^53\<close>). A property that may be absent is an \<open>option\<close>
  (\<open>None\<close> is \<^verbatim>\<open>undefined\<close>). An exception is a value of \<open>error\<close>; a function that may
  throw returns \<open>error + 'a\<close>. The network is an explicit environment: every reply the
  program can receive is a parameter. Endpoint strings, log output and the fields
  \<^verbatim>\<open>this.file\<close> and \<^verbatim>\<open>this.parts\<close>, which are written and never read, are not modelled.

  The program is single-threaded and cooperative: \<^verbatim>\<open>upload\<close> runs until it reaches an
  \<^verbatim>\<open>await\<close>, and what runs while it is suspended is given by a schedule, a list of the
  things that happen in the order in which they happen. A run of \<^verbatim>\<open>upload\<close> yields the
  state it ends in, with the sequence of events it produced, and its outcome.
\<close>

subsection \<open>Values and errors\<close>

text \<open>Truthiness of a string-valued and of a number-valued property.\<close>

definition truthy_str :: "string option \<Rightarrow> bool" where
  "truthy_str v = (case v of None \<Rightarrow> False | Some s \<Rightarrow> s \<noteq> [])"

definition truthy_num :: "int option \<Rightarrow> bool" where
  "truthy_num v = (case v of None \<Rightarrow> False | Some n \<Rightarrow> n \<noteq> 0)"

text \<open>\<^verbatim>\<open>a || d\<close> for a numeric option \<open>a\<close> and a default \<open>d\<close>.\<close>

definition or_default :: "int option \<Rightarrow> int \<Rightarrow> int" where
  "or_default v d = (case v of None \<Rightarrow> d | Some n \<Rightarrow> if truthy_num (Some n) then n else d)"

text \<open>\<^verbatim>\<open>a || b || c\<close> on strings, as used for the error message of a failed request.\<close>

definition or_str :: "string option \<Rightarrow> string \<Rightarrow> string" where
  "or_str v d = (case v of None \<Rightarrow> d | Some s \<Rightarrow> if truthy_str (Some s) then s else d)"

text \<open>The errors the class creates, one constructor per \<^verbatim>\<open>new Error(...)\<close> of the source,
  \<open>NetworkError\<close> for a \<^verbatim>\<open>fetch\<close> whose promise rejects, and \<open>TypeError\<close> for reading a
  property of \<^verbatim>\<open>undefined\<close>.\<close>

datatype error =
    NetworkError
  | InvalidServerResponse
  | FailedToGetPresignedUrls string
  | MissingUploadIdOrUrls
  | WrongUrlCount "int option" nat
  | UploadFailed string nat
  | NoETag
  | UploadAborted
  | FailedToCompleteUpload string
  | TypeError

text \<open>A \<^verbatim>\<open>fetch\<close> either rejects or resolves with a response.\<close>

datatype 'a fetched = Rejects | Resolves 'a

subsection \<open>Constructor\<close>

record options =
  opt_chunkSize :: "int option"
  opt_maxRetries :: "int option"
  opt_retryDelay :: "int option"

text \<open>A token of the collaborator's reply: an object with a numeric \<^verbatim>\<open>partNumber\<close> and a
  \<^verbatim>\<open>url\<close> that may be absent. An entry of the token list is a token or \<^verbatim>\<open>null\<close> (\<open>None\<close>).\<close>

record token =
  partNumber :: int
  url :: "string option"

record uploader =
  chunkSize :: int
  maxRetries :: int
  retryDelay :: int
  uploadId :: "string option"
  presignedUrls :: "token option list"
  bucket :: "string option"
  key :: "string option"
  aborted :: bool

definition default_chunkSize :: int where
  "default_chunkSize = 5 * 1024 * 1024"

definition default_maxRetries :: int where
  "default_maxRetries = 3"

definition default_retryDelay :: int where
  "default_retryDelay = 1000"

definition constructor :: "options \<Rightarrow> uploader" where
  "constructor opts =
     \<lparr> chunkSize = or_default (opt_chunkSize opts) default_chunkSize,
       maxRetries = or_default (opt_maxRetries opts) default_maxRetries,
       retryDelay = or_default (opt_retryDelay opts) default_retryDelay,
       uploadId = None,
       presignedUrls = [],
       bucket = None,
       key = None,
       aborted = False \<rparr>"

subsection \<open>Planning: part count and byte ranges\<close>

text \<open>\<^verbatim>\<open>Math.ceil(fileSize / chunkSize)\<close>. The quotient is not finite when \<open>chunkSize\<close> is
  zero (\<open>None\<close>); otherwise the ceiling of the exact quotient, for either sign.\<close>

definition total_parts :: "int \<Rightarrow> int \<Rightarrow> int option" where
  "total_parts fileSize cs = (if cs = 0 then None else Some (- ((- fileSize) div cs)))"

text \<open>The byte range of a part, as \<^verbatim>\<open>uploadSinglePart\<close> computes it:
  \<^verbatim>\<open>start = (partNumber - 1) * chunkSize\<close>, \<^verbatim>\<open>end = Math.min(start + chunkSize, file.size)\<close>.\<close>

definition part_start :: "int \<Rightarrow> int \<Rightarrow> int" where
  "part_start cs pn = (pn - 1) * cs"

definition part_end :: "int \<Rightarrow> int \<Rightarrow> int \<Rightarrow> int" where
  "part_end cs fileSize pn = min (part_start cs pn + cs) fileSize"

subsection \<open>Transfer of one part, with retries\<close>

record part =
  PartNumber :: nat
  ETag :: string

record put_response =
  put_ok :: bool
  put_statusText :: string
  put_status :: nat
  put_etag :: "string option"

text \<open>What one part transfer does, in order: a \<^verbatim>\<open>PUT\<close> (numbered from 1) or a wait of
  so many milliseconds.\<close>

datatype part_event = Put nat | Wait int

text \<open>The body of the \<^verbatim>\<open>try\<close> block of \<^verbatim>\<open>uploadPart\<close>: one \<^verbatim>\<open>PUT\<close> and the checks on its
  response. The header has its double quotes removed.\<close>

definition put_attempt :: "nat \<Rightarrow> put_response fetched \<Rightarrow> error + part" where
  "put_attempt pn r =
     (case r of
        Rejects \<Rightarrow> Inl NetworkError
      | Resolves resp \<Rightarrow>
          if \<not> put_ok resp then Inl (UploadFailed (put_statusText resp) (put_status resp))
          else (case put_etag resp of
                  None \<Rightarrow> Inl NoETag
                | Some h \<Rightarrow>
                    let etag = filter (\<lambda>c. c \<noteq> CHR 0x22) h
                    in if etag = [] then Inl NoETag
                       else Inr \<lparr> PartNumber = pn, ETag = etag \<rparr>))"

text \<open>The \<^verbatim>\<open>while (retries < this.maxRetries)\<close> loop of \<^verbatim>\<open>uploadPart\<close>. \<open>replies k\<close> is the
  reply to the \<open>k\<close>-th \<^verbatim>\<open>PUT\<close> of this part, counted from 0. A loop that is never entered
  returns \<^verbatim>\<open>undefined\<close> (\<open>Inr None\<close>).\<close>

function uploadPart_loop ::
  "int \<Rightarrow> int \<Rightarrow> nat \<Rightarrow> (nat \<Rightarrow> put_response fetched) \<Rightarrow> nat
     \<Rightarrow> part_event list \<times> (error + part option)" where
  "uploadPart_loop mr rd pn replies retries =
     (if int retries < mr then
        (case put_attempt pn (replies retries) of
           Inr p \<Rightarrow> ([Put (Suc retries)], Inr (Some p))
         | Inl e \<Rightarrow>
             if int (Suc retries) \<ge> mr then ([Put (Suc retries)], Inl e)
             else (case uploadPart_loop mr rd pn replies (Suc retries) of
                     (tr, res) \<Rightarrow> (Put (Suc retries) # Wait (rd * int (Suc retries)) # tr, res)))
      else ([], Inr None))"
  by pat_completeness auto
termination
  by (relation "measure (\<lambda>(mr, rd, pn, replies, retries). nat (mr - int retries))") auto

declare uploadPart_loop.simps [simp del]

definition uploadPart :: "uploader \<Rightarrow> nat \<Rightarrow> (nat \<Rightarrow> put_response fetched)
    \<Rightarrow> part_event list \<times> (error + part option)" where
  "uploadPart this pn replies = uploadPart_loop (maxRetries this) (retryDelay this) pn replies 0"

subsection \<open>Requests to the collaborator\<close>

datatype url_field = UrlsMissing | UrlsNotArray | UrlArray "token option list"

text \<open>The JSON body of the reply to the initiate request. \<open>UrlsMissing\<close> is an absent or
  otherwise falsy \<^verbatim>\<open>presignedUrls\<close>, \<open>UrlsNotArray\<close> a truthy value that is not an array.\<close>

record init_data =
  d_error :: "string option"
  d_message :: "string option"
  d_uploadId :: "string option"
  d_presignedUrls :: url_field
  d_bucket :: "string option"
  d_key :: "string option"

record complete_data =
  r_error :: "string option"
  r_message :: "string option"
  r_location :: string

text \<open>A response: \<open>json = None\<close> when \<^verbatim>\<open>response.json()\<close> throws.\<close>

record 'd http_response =
  ok :: bool
  statusText :: string
  json :: "'d option"

text \<open>\<^verbatim>\<open>data.presignedUrls.sort((a, b) => a.partNumber - b.partNumber)\<close>: the sort is stable.
  A list of fewer than two entries is returned without a call of the comparator. In a
  longer list every entry is compared, and the comparator throws when it reads
  \<^verbatim>\<open>partNumber\<close> of \<^verbatim>\<open>null\<close>.\<close>

definition sort_tokens :: "token option list \<Rightarrow> error + token option list" where
  "sort_tokens urls =
     (if length urls < 2 then Inr urls
      else if None \<in> set urls then Inl TypeError
      else Inr (map Some (sort_key partNumber (map the urls))))"

text \<open>\<^verbatim>\<open>getPresignedUrls\<close> after its request has been sent: the handling of the reply.
  On success the uploader holds the session id and the tokens, sorted by part number.\<close>

definition getPresignedUrls ::
  "uploader \<Rightarrow> int \<Rightarrow> init_data http_response fetched \<Rightarrow> error + uploader" where
  "getPresignedUrls this fileSize reply =
     (let totalParts = total_parts fileSize (chunkSize this) in
      case reply of
        Rejects \<Rightarrow> Inl NetworkError
      | Resolves response \<Rightarrow>
          (case json response of
             None \<Rightarrow>
               if \<not> ok response then Inl (FailedToGetPresignedUrls (statusText response))
               else Inl InvalidServerResponse
           | Some data \<Rightarrow>
               if \<not> ok response then
                 Inl (FailedToGetPresignedUrls
                        (or_str (d_error data) (or_str (d_message data) (statusText response))))
               else if \<not> truthy_str (d_uploadId data) then Inl MissingUploadIdOrUrls
               else (case d_presignedUrls data of
                       UrlsMissing \<Rightarrow> Inl MissingUploadIdOrUrls
                     | UrlsNotArray \<Rightarrow> Inl MissingUploadIdOrUrls
                     | UrlArray urls \<Rightarrow>
                         if Some (int (length urls)) \<noteq> totalParts
                         then Inl (WrongUrlCount totalParts (length urls))
                         else (case sort_tokens urls of
                                 Inl e \<Rightarrow> Inl e
                               | Inr urls' \<Rightarrow>
                                   Inr (this \<lparr> uploadId := d_uploadId data,
                                               presignedUrls := urls',
                                               bucket := d_bucket data,
                                               key := d_key data \<rparr>)))))"

definition completeUpload :: "complete_data http_response fetched \<Rightarrow> error + complete_data" where
  "completeUpload reply =
     (case reply of
        Rejects \<Rightarrow> Inl NetworkError
      | Resolves response \<Rightarrow>
          (case json response of
             None \<Rightarrow>
               if \<not> ok response then Inl (FailedToCompleteUpload (statusText response))
               else Inl InvalidServerResponse
           | Some data \<Rightarrow>
               if \<not> ok response then
                 Inl (FailedToCompleteUpload
                        (or_str (r_error data) (or_str (r_message data) (statusText response))))
               else Inr data))"

text \<open>\<^verbatim>\<open>abortUpload\<close>: the request is inside \<^verbatim>\<open>try\<close>, and the \<^verbatim>\<open>catch\<close> block only logs.
  The value is how the promise of \<^verbatim>\<open>abortUpload\<close> settles.\<close>

definition abortUpload :: "unit http_response fetched \<Rightarrow> error + unit" where
  "abortUpload reply =
     (case (case reply of Rejects \<Rightarrow> Inl NetworkError | Resolves response \<Rightarrow> Inr ()) of
        Inl e \<Rightarrow> Inr ()
      | Inr u \<Rightarrow> Inr ())"

subsection \<open>The run of \<^verbatim>\<open>upload\<close>\<close>

record js_file =
  file_name :: string
  file_size :: int
  file_type :: string

text \<open>The progress events, by what \<^verbatim>\<open>upload\<close> passes to \<^verbatim>\<open>onProgress\<close>: \<open>Uploaded u t p\<close>
  has \<^verbatim>\<open>uploadedParts = u\<close>, \<^verbatim>\<open>totalParts = t\<close> and \<^verbatim>\<open>currentPart = p\<close>.\<close>

datatype progress =
    Initiating
  | UploadingStart nat
  | Uploaded nat nat nat
  | Completing
  | Completed complete_data
  | ErrorEvent error

datatype phase = PInitiating | PUploading | PCompleting | PCompleted | PError

fun phase_of :: "progress \<Rightarrow> phase" where
  "phase_of Initiating = PInitiating"
| "phase_of (UploadingStart t) = PUploading"
| "phase_of (Uploaded u t p) = PUploading"
| "phase_of Completing = PCompleting"
| "phase_of (Completed r) = PCompleted"
| "phase_of (ErrorEvent e) = PError"

text \<open>What an observer of one run sees, in order. \<open>AbortInvoked\<close> marks a call of \<^verbatim>\<open>abort()\<close>
  by the caller. \<open>Dispatch pn u (start, end)\<close> is the call of \<^verbatim>\<open>uploadPart\<close> for part \<open>pn\<close>
  with the token \<open>u\<close> and the chunk \<^verbatim>\<open>file.slice(start, end)\<close>: from then on the transfer of
  the part is in flight, until its promise settles (\<open>Settled pn\<close>).\<close>

datatype event =
    AbortInvoked
  | InitiateRequest int "int option"
  | Dispatch nat "string option" "int \<times> int"
  | Settled nat
  | CompleteRequest "string option" "part list"
  | AbortRequest "string option"
  | ProgressEv progress

text \<open>What happens while \<^verbatim>\<open>upload\<close> is suspended at an \<^verbatim>\<open>await\<close>, in the order in which
  the event loop runs it: the caller calls \<^verbatim>\<open>abort()\<close>, the transfer of a part settles,
  or the awaited request to the collaborator settles.\<close>

datatype sched_event = AbortCall | PartSettles nat | Reply

text \<open>Everything outside the uploader: whether the caller passed \<^verbatim>\<open>onProgress\<close>, and the
  reply to every request.\<close>

record env =
  on_progress :: bool
  init_reply :: "init_data http_response fetched"
  put_replies :: "nat \<Rightarrow> nat \<Rightarrow> put_response fetched"
  complete_reply :: "complete_data http_response fetched"
  abort_reply :: "unit http_response fetched"

text \<open>The state of a run: the uploader object, the local \<^verbatim>\<open>partsArray\<close> of \<^verbatim>\<open>upload\<close>,
  the parts whose transfer is in flight, and the events so far.\<close>

record sstate =
  obj :: uploader
  partsArray :: "part option list"
  inflight :: "nat list"
  trace :: "event list"

definition emit :: "event \<Rightarrow> sstate \<Rightarrow> sstate" where
  "emit e s = s \<lparr> trace := trace s @ [e] \<rparr>"

text \<open>\<^verbatim>\<open>if (onProgress) { onProgress(...) }\<close>\<close>

definition onProgress :: "env \<Rightarrow> progress \<Rightarrow> sstate \<Rightarrow> sstate" where
  "onProgress c p s = (if on_progress c then emit (ProgressEv p) s else s)"

text \<open>\<^verbatim>\<open>abort()\<close>: sets the flag and, when a session id exists, calls \<^verbatim>\<open>abortUpload\<close> without
  awaiting it.\<close>

definition abort :: "sstate \<Rightarrow> sstate" where
  "abort s =
     (let s1 = (emit AbortInvoked s) \<lparr> obj := (obj s) \<lparr> aborted := True \<rparr> \<rparr>
      in if truthy_str (uploadId (obj s1)) then emit (AbortRequest (uploadId (obj s1))) s1
         else s1)"

text \<open>\<^verbatim>\<open>arr[i] = v\<close>: an index past the end extends the array with holes.\<close>

definition array_set :: "'a option list \<Rightarrow> nat \<Rightarrow> 'a option \<Rightarrow> 'a option list" where
  "array_set xs i v =
     (if i < length xs then xs[i := v] else xs @ replicate (i - length xs) None @ [v])"

text \<open>\<^verbatim>\<open>arr.filter(p => p !== undefined)\<close>\<close>

definition defined_parts :: "'a option list \<Rightarrow> 'a list" where
  "defined_parts xs = map the (filter (\<lambda>p. p \<noteq> None) xs)"

text \<open>\<^verbatim>\<open>uploadSinglePart\<close> up to its \<^verbatim>\<open>await\<close>: the check of the flag, the byte range, and
  the call of \<^verbatim>\<open>uploadPart\<close>.\<close>

definition uploadSinglePart_start ::
  "js_file \<Rightarrow> nat \<Rightarrow> string option \<Rightarrow> sstate \<Rightarrow> error + sstate" where
  "uploadSinglePart_start f pn presignedUrl s =
     (if aborted (obj s) then Inl UploadAborted
      else
        let start = part_start (chunkSize (obj s)) (int pn);
            end = part_end (chunkSize (obj s)) (file_size f) (int pn)
        in Inr (emit (Dispatch pn presignedUrl (start, end))
                  (s \<lparr> inflight := inflight s @ [pn] \<rparr>)))"

text \<open>\<^verbatim>\<open>uploadSinglePart\<close> from its \<^verbatim>\<open>await\<close> on, run when the promise of \<^verbatim>\<open>uploadPart\<close>
  settles: a rejection is thrown on; a result is stored at index \<open>pn - 1\<close> and reported.\<close>

definition uploadSinglePart_resume ::
  "env \<Rightarrow> nat \<Rightarrow> nat \<Rightarrow> sstate \<Rightarrow> error option \<times> sstate" where
  "uploadSinglePart_resume c totalParts pn s =
     (let s1 = emit (Settled pn) (s \<lparr> inflight := remove1 pn (inflight s) \<rparr>) in
      case snd (uploadPart (obj s) pn (put_replies c pn)) of
        Inl e \<Rightarrow> (Some e, s1)
      | Inr p \<Rightarrow>
          let s2 = s1 \<lparr> partsArray := array_set (partsArray s1) (pn - 1) p \<rparr>;
              uploadedParts = length (defined_parts (partsArray s2))
          in (None, onProgress c (Uploaded uploadedParts totalParts pn) s2))"

text \<open>An \<^verbatim>\<open>await\<close> of a request to the collaborator: what is scheduled before the reply
  runs first. \<open>None\<close>: the reply never comes.\<close>

fun await_reply ::
  "env \<Rightarrow> nat \<Rightarrow> sstate \<Rightarrow> sched_event list \<Rightarrow> (sstate \<times> sched_event list) option" where
  "await_reply c n s [] = None"
| "await_reply c n s (Reply # evs) = Some (s, evs)"
| "await_reply c n s (AbortCall # evs) = await_reply c n (abort s) evs"
| "await_reply c n s (PartSettles pn # evs) =
     await_reply c n
       (if pn \<in> set (inflight s) then snd (uploadSinglePart_resume c n pn s) else s) evs"

text \<open>\<^verbatim>\<open>await Promise.all(batch)\<close>: fulfilled when no part of the batch is in flight any
  more, rejected as soon as one part rejects.\<close>

datatype await_result =
    Pending sstate
  | Rejected error sstate "sched_event list"
  | Fulfilled sstate "sched_event list"

fun await_all :: "env \<Rightarrow> nat \<Rightarrow> sstate \<Rightarrow> sched_event list \<Rightarrow> await_result" where
  "await_all c n s [] = (if inflight s = [] then Fulfilled s [] else Pending s)"
| "await_all c n s (ev # evs) =
     (if inflight s = [] then Fulfilled s (ev # evs)
      else
        (case ev of
           AbortCall \<Rightarrow> await_all c n (abort s) evs
         | Reply \<Rightarrow> await_all c n s evs
         | PartSettles pn \<Rightarrow>
             if pn \<notin> set (inflight s) then await_all c n s evs
             else (case uploadSinglePart_resume c n pn s of
                     (Some e, s') \<Rightarrow> Rejected e s' evs
                   | (None, s') \<Rightarrow> await_all c n s' evs)))"

definition maxConcurrent :: nat where
  "maxConcurrent = 5"

text \<open>The inner \<^verbatim>\<open>for\<close> loop: the parts of one batch are dispatched one after the other,
  with no \<^verbatim>\<open>await\<close> in between. Reading \<^verbatim>\<open>this.presignedUrls[index].url\<close> throws when
  the entry is \<^verbatim>\<open>null\<close> or past the end of the token list. An error comes with the state reached, in which the parts
  dispatched before it are in flight.\<close>

fun dispatch_batch :: "js_file \<Rightarrow> nat list \<Rightarrow> sstate \<Rightarrow> (error \<times> sstate) + sstate" where
  "dispatch_batch f [] s = Inr s"
| "dispatch_batch f (index # rest) s =
     (if index < length (presignedUrls (obj s)) then
        (case presignedUrls (obj s) ! index of
           None \<Rightarrow> Inl (TypeError, s)
         | Some tok \<Rightarrow>
             (case uploadSinglePart_start f (index + 1) (url tok) s of
                Inl e \<Rightarrow> Inl (e, s)
              | Inr s' \<Rightarrow> dispatch_batch f rest s'))
      else Inl (TypeError, s))"

text \<open>The outer \<^verbatim>\<open>for (let i = 0; i < totalParts; i += maxConcurrent)\<close> loop.\<close>

function upload_batches ::
  "env \<Rightarrow> js_file \<Rightarrow> nat \<Rightarrow> nat \<Rightarrow> sstate \<Rightarrow> sched_event list \<Rightarrow> await_result" where
  "upload_batches c f totalParts i s sched =
     (if i < totalParts then
        if aborted (obj s) then Rejected UploadAborted s sched
        else
          (case dispatch_batch f [i ..< min (i + maxConcurrent) totalParts] s of
             Inl (e, s1) \<Rightarrow> Rejected e s1 sched
           | Inr s1 \<Rightarrow>
               (case await_all c totalParts s1 sched of
                  Pending s2 \<Rightarrow> Pending s2
                | Rejected e s2 sched' \<Rightarrow> Rejected e s2 sched'
                | Fulfilled s2 sched' \<Rightarrow>
                    upload_batches c f totalParts (i + maxConcurrent) s2 sched'))
      else Fulfilled s sched)"
  by pat_completeness auto
termination
  by (relation "measure (\<lambda>(c, f, totalParts, i, s, sched). totalParts - i)")
     (auto simp: maxConcurrent_def)

declare upload_batches.simps [simp del]

text \<open>The \<^verbatim>\<open>try\<close> block of \<^verbatim>\<open>upload\<close>.\<close>

datatype body_result =
    BPending sstate
  | BRaise error sstate "sched_event list"
  | BReturn complete_data sstate

definition upload_body :: "env \<Rightarrow> js_file \<Rightarrow> sstate \<Rightarrow> sched_event list \<Rightarrow> body_result" where
  "upload_body c f s0 sched =
     (let s1 = onProgress c Initiating s0;
          s2 = emit (InitiateRequest (file_size f)
                       (total_parts (file_size f) (chunkSize (obj s1)))) s1
      in case await_reply c 0 s2 sched of
           None \<Rightarrow> BPending s2
         | Some (s3, sched1) \<Rightarrow>
             (case getPresignedUrls (obj s3) (file_size f) (init_reply c) of
                Inl e \<Rightarrow> BRaise e s3 sched1
              | Inr this' \<Rightarrow>
                  let s4 = s3 \<lparr> obj := this' \<rparr>;
                      totalParts = length (presignedUrls (obj s4));
                      s5 = onProgress c (UploadingStart totalParts) s4;
                      s6 = s5 \<lparr> partsArray := replicate totalParts None \<rparr>
                  in case upload_batches c f totalParts 0 s6 sched1 of
                       Pending s7 \<Rightarrow> BPending s7
                     | Rejected e s7 sched2 \<Rightarrow> BRaise e s7 sched2
                     | Fulfilled s7 sched2 \<Rightarrow>
                         let completedParts = defined_parts (partsArray s7);
                             s8 = onProgress c Completing s7;
                             s9 = emit (CompleteRequest (uploadId (obj s8)) completedParts) s8
                         in case await_reply c totalParts s9 sched2 of
                              None \<Rightarrow> BPending s9
                            | Some (s10, sched3) \<Rightarrow>
                                (case completeUpload (complete_reply c) of
                                   Inl e \<Rightarrow> BRaise e s10 sched3
                                 | Inr result \<Rightarrow>
                                     BReturn result (onProgress c (Completed result) s10))))"

text \<open>\<^verbatim>\<open>upload\<close>: the reset of the flag, the \<^verbatim>\<open>try\<close> block, and the \<^verbatim>\<open>catch\<close> block, which
  awaits \<^verbatim>\<open>abortUpload\<close> when a session id exists, reports the error and throws it again.
  \<open>Hangs\<close>: a request that \<^verbatim>\<open>upload\<close> awaits never settles. The state is the one in which
  \<^verbatim>\<open>upload\<close> settles; transfers still in flight then go on, see \<open>after_settlement\<close> below.\<close>

datatype outcome = Hangs | Raised error | Returned complete_data

definition upload ::
  "env \<Rightarrow> uploader \<Rightarrow> js_file \<Rightarrow> sched_event list \<Rightarrow> sstate \<times> outcome" where
  "upload c this0 f sched =
     (let s0 = \<lparr> obj = this0 \<lparr> aborted := False \<rparr>, partsArray = [], inflight = [], trace = [] \<rparr>
      in case upload_body c f s0 sched of
           BPending s \<Rightarrow> (s, Hangs)
         | BReturn result s \<Rightarrow> (s, Returned result)
         | BRaise e s sched' \<Rightarrow>
             if truthy_str (uploadId (obj s)) then
               (let s1 = emit (AbortRequest (uploadId (obj s))) s
                in case await_reply c (length (partsArray s1)) s1 sched' of
                     None \<Rightarrow> (s1, Hangs)
                   | Some (s2, sched'') \<Rightarrow>
                       (case abortUpload (abort_reply c) of
                          Inl e' \<Rightarrow> (s2, Raised e')
                        | Inr u \<Rightarrow> (onProgress c (ErrorEvent e) s2, Raised e)))
             else (onProgress c (ErrorEvent e) s, Raised e))"

subsection \<open>Observations on a run\<close>

text \<open>The wait that immediately precedes the \<open>n\<close>-th \<^verbatim>\<open>PUT\<close> of a part transfer.\<close>

fun wait_before :: "part_event list \<Rightarrow> nat \<Rightarrow> int option" where
  "wait_before (Wait d # Put m # tr) n = (if m = n then Some d else wait_before (Put m # tr) n)"
| "wait_before (e # tr) n = wait_before tr n"
| "wait_before [] n = None"

fun is_Put :: "part_event \<Rightarrow> bool" where
  "is_Put (Put n) = True"
| "is_Put (Wait d) = False"

text \<open>Retry number \<open>n\<close> of a part transfer is the request that follows the \<open>n\<close>-th failed
  attempt, \<open>n\<close> being the attempt number that \<^verbatim>\<open>uploadPart\<close> counts in \<^verbatim>\<open>retries\<close> and
  logs: it is request \<open>n + 1\<close>. Whether it takes place, and the wait that precedes it.\<close>

definition retried :: "part_event list \<Rightarrow> nat \<Rightarrow> bool" where
  "retried tr n = (Put (Suc n) \<in> set tr)"

definition wait_before_retry :: "part_event list \<Rightarrow> nat \<Rightarrow> int option" where
  "wait_before_retry tr n = wait_before tr (Suc n)"

text \<open>The number of \<^verbatim>\<open>PUT\<close> requests of a part transfer.\<close>

definition attempts :: "part_event list \<Rightarrow> nat" where
  "attempts tr = length (filter is_Put tr)"

fun is_Dispatch :: "event \<Rightarrow> bool" where
  "is_Dispatch (Dispatch pn u r) = True"
| "is_Dispatch e = False"

fun is_Settled :: "event \<Rightarrow> bool" where
  "is_Settled (Settled pn) = True"
| "is_Settled e = False"

text \<open>The number of part transfers in flight after a sequence of events: those
  dispatched and not yet settled.\<close>

definition in_flight :: "event list \<Rightarrow> int" where
  "in_flight tr = int (length (filter is_Dispatch tr)) - int (length (filter is_Settled tr))"

text \<open>The events of a run from the first call of \<^verbatim>\<open>abort()\<close> on.\<close>

definition after_abort :: "event list \<Rightarrow> event list" where
  "after_abort tr = dropWhile (\<lambda>e. e \<noteq> AbortInvoked) tr"

text \<open>The events of a call \<^verbatim>\<open>if (onProgress) { onProgress(p) }\<close>.\<close>

definition progress_of :: "env \<Rightarrow> progress \<Rightarrow> event list" where
  "progress_of c p = (if on_progress c then [ProgressEv p] else [])"

subsection \<open>The states of a run\<close>

text \<open>Names for the states of a run of \<^verbatim>\<open>upload\<close>: at its start, at its first \<^verbatim>\<open>await\<close>
  (the initiate request is out), before the first batch, after the complete request and
  after the abort request of the \<^verbatim>\<open>catch\<close> block; and the state that a result carries.\<close>

definition initial_state :: "uploader \<Rightarrow> sstate" where
  "initial_state this0 =
     \<lparr> obj = this0 \<lparr> aborted := False \<rparr>, partsArray = [], inflight = [], trace = [] \<rparr>"

definition first_await :: "env \<Rightarrow> uploader \<Rightarrow> js_file \<Rightarrow> sstate" where
  "first_await c this0 f =
     emit (InitiateRequest (file_size f) (total_parts (file_size f) (chunkSize this0)))
       (onProgress c Initiating (initial_state this0))"

definition batches_start :: "env \<Rightarrow> uploader \<Rightarrow> sstate \<Rightarrow> sstate" where
  "batches_start c this' s =
     (onProgress c (UploadingStart (length (presignedUrls this'))) (s \<lparr> obj := this' \<rparr>))
       \<lparr> partsArray := replicate (length (presignedUrls this')) None \<rparr>"

definition complete_request :: "env \<Rightarrow> sstate \<Rightarrow> sstate" where
  "complete_request c s7 =
     emit (CompleteRequest (uploadId (obj s7)) (defined_parts (partsArray s7)))
       (onProgress c Completing s7)"

definition abort_request :: "sstate \<Rightarrow> sstate" where
  "abort_request s = emit (AbortRequest (uploadId (obj s))) s"

fun result_state :: "await_result \<Rightarrow> sstate" where
  "result_state (Pending s) = s"
| "result_state (Rejected e s sched) = s"
| "result_state (Fulfilled s sched) = s"

fun body_state :: "body_result \<Rightarrow> sstate" where
  "body_state (BPending s) = s"
| "body_state (BRaise e s sched) = s"
| "body_state (BReturn r s) = s"

text \<open>What runs after \<^verbatim>\<open>upload\<close> has settled. The transfers that are still in flight go
  on: when one settles, the rest of \<^verbatim>\<open>uploadSinglePart\<close> runs, and the caller may call
  \<^verbatim>\<open>abort()\<close>. A reply to a request that nobody awaits has no effect.\<close>

fun after_settlement :: "env \<Rightarrow> nat \<Rightarrow> sstate \<Rightarrow> sched_event list \<Rightarrow> sstate" where
  "after_settlement c n s [] = s"
| "after_settlement c n s (Reply # evs) = after_settlement c n s evs"
| "after_settlement c n s (AbortCall # evs) = after_settlement c n (abort s) evs"
| "after_settlement c n s (PartSettles pn # evs) =
     after_settlement c n
       (if pn \<in> set (inflight s) then snd (uploadSinglePart_resume c n pn s) else s) evs"

text \<open>A run in which \<^verbatim>\<open>upload\<close> throws, continued to the end of the schedule: the state of
  \<^verbatim>\<open>upload\<close> at the throw, and then what the schedule has left. (For a run in which
  \<^verbatim>\<open>upload\<close> does not throw, the state of \<^verbatim>\<open>upload\<close>.)\<close>

definition after_throw :: "env \<Rightarrow> uploader \<Rightarrow> js_file \<Rightarrow> sched_event list \<Rightarrow> sstate" where
  "after_throw c this0 f sched =
     (case upload_body c f (initial_state this0) sched of
        BPending s \<Rightarrow> fst (upload c this0 f sched)
      | BReturn result s \<Rightarrow> fst (upload c this0 f sched)
      | BRaise e s sched' \<Rightarrow>
          if truthy_str (uploadId (obj s)) then
            (case await_reply c (length (partsArray s)) (abort_request s) sched' of
               None \<Rightarrow> fst (upload c this0 f sched)
             | Some (s2, sched'') \<Rightarrow>
                 after_settlement c (length (partsArray s)) (fst (upload c this0 f sched))
                   sched'')
          else after_settlement c (length (partsArray s)) (fst (upload c this0 f sched)) sched')"

text \<open>The events that a call of \<^verbatim>\<open>abort()\<close> and the settling of a part produce.\<close>

fun is_aftermath :: "event \<Rightarrow> bool" where
  "is_aftermath AbortInvoked = True"
| "is_aftermath (AbortRequest u) = True"
| "is_aftermath (Settled pn) = True"
| "is_aftermath (ProgressEv (Uploaded u t p)) = True"
| "is_aftermath e = False"

subsection \<open>Invariants\<close>

text \<open>The events of a state are given events followed by events of \<^verbatim>\<open>abort()\<close> calls and
  settled parts only.\<close>

definition aftermath_of :: "event list \<Rightarrow> sstate \<Rightarrow> bool" where
  "aftermath_of tr0 s =
     (\<exists>later. trace s = tr0 @ later \<and> filter (\<lambda>x. \<not> is_aftermath x) later = [])"

text \<open>The settings of the uploader that a run does not change.\<close>

definition same_settings :: "uploader \<Rightarrow> sstate \<Rightarrow> bool" where
  "same_settings this0 s =
     (chunkSize (obj s) = chunkSize this0 \<and> maxRetries (obj s) = maxRetries this0 \<and>
      retryDelay (obj s) = retryDelay this0)"

text \<open>The concurrency ceiling: the events so far never had more than \<open>maxConcurrent\<close>
  transfers in flight, and the transfers in flight are those the state records.\<close>

definition peak_ok :: "event list \<Rightarrow> bool" where
  "peak_ok tr = (\<forall>k. in_flight (take k tr) \<le> int maxConcurrent)"

definition flight_inv :: "sstate \<Rightarrow> bool" where
  "flight_inv s = (in_flight (trace s) = int (length (inflight s)) \<and>
                   length (inflight s) \<le> maxConcurrent \<and> peak_ok (trace s))"

text \<open>After a call of \<^verbatim>\<open>abort()\<close> the flag is set and nothing has been dispatched.\<close>

definition abort_inv :: "sstate \<Rightarrow> bool" where
  "abort_inv s = ((AbortInvoked \<in> set (trace s) \<longrightarrow> aborted (obj s)) \<and>
                  filter is_Dispatch (after_abort (trace s)) = [])"

text \<open>The events of a state begin with given events.\<close>

definition extends :: "event list \<Rightarrow> sstate \<Rightarrow> bool" where
  "extends tr0 s = (\<exists>rest. trace s = tr0 @ rest)"


text \<open>Every stored part sits at the index of its part number.\<close>

definition parts_numbered :: "part option list \<Rightarrow> bool" where
  "parts_numbered xs = (\<forall>k<length xs. \<forall>q. xs ! k = Some q \<longrightarrow> PartNumber q = Suc k)"

text \<open>Of the first \<open>m\<close> of \<open>n\<close> parts, each is in flight or stored.\<close>

definition covered :: "env \<Rightarrow> int \<Rightarrow> int \<Rightarrow> nat \<Rightarrow> nat \<Rightarrow> sstate \<Rightarrow> bool" where
  "covered c mr rd n m s =
     (length (partsArray s) = n \<and> maxRetries (obj s) = mr \<and> retryDelay (obj s) = rd \<and>
      (\<forall>pn\<in>set (inflight s). 1 \<le> pn \<and> pn \<le> n) \<and>
      (\<forall>k<m. Suc k \<in> set (inflight s) \<or> partsArray s ! k \<noteq> None))"

text \<open>Every complete request so far carried the part numbers \<open>1..N\<close> in order.\<close>

definition sorted_inv :: "uploader \<Rightarrow> nat \<Rightarrow> sstate \<Rightarrow> bool" where
  "sorted_inv this0 N s =
     (parts_numbered (partsArray s) \<and> maxRetries (obj s) = maxRetries this0 \<and>
      retryDelay (obj s) = retryDelay this0 \<and> chunkSize (obj s) = chunkSize this0 \<and>
      (\<forall>pn\<in>set (inflight s). 1 \<le> pn) \<and>
      (\<forall>uid ps. CompleteRequest uid ps \<in> set (trace s) \<longrightarrow>
         map PartNumber ps = [1 ..< Suc N]))"

subsection \<open>Example inputs\<close>

text \<open>An uploader built with no options, replies of the store to a \<^verbatim>\<open>PUT\<close>, token lists as
  the collaborator may send them (in any order), a collaborator that accepts every
  request but whose abort endpoint is unreachable, and schedules.\<close>

definition no_options :: options where
  "no_options = \<lparr> opt_chunkSize = None, opt_maxRetries = None, opt_retryDelay = None \<rparr>"

definition put_succeeds :: "put_response fetched" where
  "put_succeeds = Resolves \<lparr> put_ok = True, put_statusText = ''OK'', put_status = 200,
                              put_etag = Some ''e1'' \<rparr>"

definition five_retries :: options where
  "five_retries = \<lparr> opt_chunkSize = None, opt_maxRetries = Some 5, opt_retryDelay = None \<rparr>"

definition fails_thrice :: "nat \<Rightarrow> put_response fetched" where
  "fails_thrice k = (if k < 3 then Rejects else put_succeeds)"

definition part2_fails :: "nat \<Rightarrow> nat \<Rightarrow> put_response fetched" where
  "part2_fails pn k = (if pn = 2 then Rejects else put_succeeds)"


definition two_tokens :: "token option list" where
  "two_tokens = [Some \<lparr> partNumber = 2, url = Some ''u2'' \<rparr>,
                 Some \<lparr> partNumber = 1, url = Some ''u1'' \<rparr>]"

definition three_tokens :: "token option list" where
  "three_tokens = [Some \<lparr> partNumber = 3, url = Some ''u3'' \<rparr>,
                   Some \<lparr> partNumber = 1, url = Some ''u1'' \<rparr>,
                   Some \<lparr> partNumber = 2, url = Some ''u2'' \<rparr>]"

definition six_tokens :: "token option list" where
  "six_tokens = map (\<lambda>k. Some \<lparr> partNumber = int k, url = Some ''u'' \<rparr>) [1 ..< 7]"

definition example_env :: "token option list \<Rightarrow> (nat \<Rightarrow> nat \<Rightarrow> put_response fetched) \<Rightarrow> env" where
  "example_env toks puts =
     \<lparr> on_progress = True,
       init_reply = Resolves \<lparr> ok = True, statusText = ''OK'',
         json = Some \<lparr> d_error = None, d_message = None, d_uploadId = Some ''id'',
                       d_presignedUrls = UrlArray toks,
                       d_bucket = Some ''b'', d_key = Some ''k'' \<rparr> \<rparr>,
       put_replies = puts,
       complete_reply = Resolves \<lparr> ok = True, statusText = ''OK'',
         json = Some \<lparr> r_error = None, r_message = None, r_location = ''loc'' \<rparr> \<rparr>,
       abort_reply = Rejects \<rparr>"

definition example_file :: "int \<Rightarrow> js_file" where
  "example_file n = \<lparr> file_name = ''f'', file_size = n, file_type = ''t'' \<rparr>"


text \<open>A collaborator whose complete endpoint answers with an error status, one whose
  initiate endpoint is unreachable, and an uploader that still holds the session id of an
  earlier upload.\<close>

definition init_fails_env :: env where
  "init_fails_env = (example_env two_tokens (\<lambda>pn k. put_succeeds)) \<lparr> init_reply := Rejects \<rparr>"

definition complete_fails_env :: env where
  "complete_fails_env =
     (example_env two_tokens (\<lambda>pn k. put_succeeds))
       \<lparr> complete_reply := Resolves \<lparr> ok = False, statusText = ''Bad Request'',
           json = Some \<lparr> r_error = Some ''no such upload'', r_message = None,
                         r_location = [] \<rparr> \<rparr> \<rparr>"

definition used_uploader :: uploader where
  "used_uploader = (constructor no_options) \<lparr> uploadId := Some ''old'' \<rparr>"

definition abort_mid_batch :: "sched_event list" where
  "abort_mid_batch = [Reply, PartSettles 1, AbortCall, PartSettles 2, Reply]"

definition aborted_state :: sstate where
  "aborted_state =
     \<lparr> obj = (constructor no_options) \<lparr> uploadId := Some ''id'', aborted := True \<rparr>,
       partsArray = [Some \<lparr> PartNumber = 1, ETag = ''e1'' \<rparr>, None], inflight = [2],
       trace = [] \<rparr>"

section \<open>Properties\<close>

subsection \<open>Constructor defaults\<close>

text \<open>
  Claim C10. A falsy value (an absent option, or 0) passed for \<^verbatim>\<open>chunkSize\<close>, \<^verbatim>\<open>maxRetries\<close>
  or \<^verbatim>\<open>retryDelay\<close> is replaced by the default (5 MiB, 3, 1000); a truthy value is used
  as it is. So no uploader has a zero chunk size, zero retries or a zero retry delay.
\<close>

theorem constructor_falsy_options_default:
  "(\<not> truthy_num (opt_chunkSize opts) \<longrightarrow> chunkSize (constructor opts) = 5 * 1024 * 1024) \<and>
   (\<not> truthy_num (opt_maxRetries opts) \<longrightarrow> maxRetries (constructor opts) = 3) \<and>
   (\<not> truthy_num (opt_retryDelay opts) \<longrightarrow> retryDelay (constructor opts) = 1000) \<and>
   (truthy_num (opt_chunkSize opts) \<longrightarrow> Some (chunkSize (constructor opts)) = opt_chunkSize opts) \<and>
   (truthy_num (opt_maxRetries opts) \<longrightarrow> Some (maxRetries (constructor opts)) = opt_maxRetries opts) \<and>
   (truthy_num (opt_retryDelay opts) \<longrightarrow> Some (retryDelay (constructor opts)) = opt_retryDelay opts) \<and>
   chunkSize (constructor opts) \<noteq> 0 \<and> maxRetries (constructor opts) \<noteq> 0 \<and>
   retryDelay (constructor opts) \<noteq> 0"
  by (auto simp: constructor_def or_default_def truthy_num_def default_chunkSize_def
      default_maxRetries_def default_retryDelay_def split: option.splits)

text \<open>An instance for C10: zero for the chunk size and the retries, 7 for the delay.\<close>

theorem constructor_falsy_options_default_witness:
  "\<not> truthy_num (Some 0) \<and> truthy_num (Some 7) \<and>
   chunkSize (constructor \<lparr> opt_chunkSize = Some 0, opt_maxRetries = Some 0,
                            opt_retryDelay = Some 7 \<rparr>) = 5242880 \<and>
   maxRetries (constructor \<lparr> opt_chunkSize = Some 0, opt_maxRetries = Some 0,
                             opt_retryDelay = Some 7 \<rparr>) = 3 \<and>
   retryDelay (constructor \<lparr> opt_chunkSize = Some 0, opt_maxRetries = Some 0,
                             opt_retryDelay = Some 7 \<rparr>) = 7"
  using constructor_falsy_options_default
    [of "\<lparr> opt_chunkSize = Some 0, opt_maxRetries = Some 0, opt_retryDelay = Some 7 \<rparr>"]
  by (simp add: truthy_num_def)

subsection \<open>Byte ranges\<close>

lemma total_parts_bounds:
  assumes "0 < cs" "total_parts fileSize cs = Some n"
  shows "(n - 1) * cs < fileSize" "fileSize \<le> n * cs"
proof -
  define q where "q = (- fileSize) div cs"
  define r where "r = (- fileSize) mod cs"
  from assms have n: "n = - q" by (auto simp: total_parts_def q_def)
  have eq: "cs * q + r = - fileSize" unfolding q_def r_def by (rule mult_div_mod_eq)
  have r: "0 \<le> r" "r < cs" using assms(1) unfolding r_def by simp_all
  have a: "(n - 1) * cs = - (cs * q) - cs" unfolding n by (simp add: algebra_simps)
  have b: "n * cs = - (cs * q)" unfolding n by (simp add: algebra_simps)
  show "(n - 1) * cs < fileSize" unfolding a using eq r by linarith
  show "fileSize \<le> n * cs" unfolding b using eq r by linarith
qed

lemma part_index_unique:
  assumes "0 < cs" "part_start cs p \<le> b" "b < part_start cs p + cs"
  shows "p = b div cs + 1"
proof -
  have "b = cs * (p - 1) + (b - cs * (p - 1))" by simp
  moreover have "0 \<le> b - cs * (p - 1)" using assms(2) by (simp add: part_start_def algebra_simps)
  moreover have "b - cs * (p - 1) < cs" using assms(3) by (simp add: part_start_def algebra_simps)
  ultimately have "b div cs = p - 1" by (rule int_div_pos_eq)
  then show ?thesis by simp
qed

lemma part_full:
  assumes "0 < cs" "total_parts fileSize cs = Some n" "1 \<le> p" "p < n"
  shows "part_end cs fileSize p = part_start cs p + cs"
proof -
  have "p * cs \<le> (n - 1) * cs" using assms(1,4) by (intro mult_right_mono) simp_all
  also have "\<dots> < fileSize" using total_parts_bounds(1)[OF assms(1,2)] .
  finally show ?thesis by (simp add: part_end_def part_start_def algebra_simps)
qed

lemma part_last:
  assumes "0 < cs" "total_parts fileSize cs = Some n"
  shows "part_end cs fileSize n = fileSize"
    and "0 < fileSize - part_start cs n" and "fileSize - part_start cs n \<le> cs"
  using total_parts_bounds[OF assms]
  by (simp_all add: part_end_def part_start_def algebra_simps)

lemma total_parts_pos:
  assumes "0 < fileSize" "0 < cs" "total_parts fileSize cs = Some n"
  shows "1 \<le> n"
proof (rule ccontr)
  assume "\<not> 1 \<le> n"
  then have "n \<le> 0" by simp
  then have "n * cs \<le> 0" using assms(2) by (simp add: mult_le_0_iff)
  with total_parts_bounds(2)[OF assms(2,3)] assms(1) show False by simp
qed

lemma part_exists:
  assumes "0 < cs" "total_parts fileSize cs = Some n" "0 \<le> b" "b < fileSize"
  shows "1 \<le> b div cs + 1 \<and> b div cs + 1 \<le> n \<and> part_start cs (b div cs + 1) \<le> b \<and>
         b < part_end cs fileSize (b div cs + 1)"
proof -
  define q where "q = b div cs"
  define r where "r = b mod cs"
  have eq: "cs * q + r = b" unfolding q_def r_def by (rule mult_div_mod_eq)
  have r: "0 \<le> r" "r < cs" using assms(1) unfolding r_def by simp_all
  have q0: "0 \<le> q" unfolding q_def using assms(1,3) by (simp add: pos_imp_zdiv_nonneg_iff)
  have qn: "q < n"
  proof (rule ccontr)
    assume "\<not> q < n"
    then have "n * cs \<le> q * cs" using assms(1) by (intro mult_right_mono) simp_all
    then have "n * cs \<le> cs * q" by (simp only: mult.commute)
    with total_parts_bounds(2)[OF assms(1,2)] eq r assms(4) show False
      by linarith
  qed
  have s: "part_start cs (q + 1) = cs * q" by (simp add: part_start_def)
  have e: "part_end cs fileSize (q + 1) = min (cs * q + cs) fileSize"
    by (simp add: part_end_def s)
  show ?thesis unfolding q_def[symmetric] s e using q0 qn eq r assms(4) by simp
qed

text \<open>
  Claim C2. For a file size and a chunk size above zero, with
  \<open>n = ceil (fileSize / chunkSize)\<close> parts: there is at least one part, part 1 starts at
  byte 0, every part before the last ends where the next one starts and has exactly
  \<open>chunkSize\<close> bytes, the last part ends at \<open>fileSize\<close> and has between 1 and \<open>chunkSize\<close>
  bytes, and every byte of the file lies in exactly one part.
\<close>

theorem planned_parts_tile_file:
  assumes "0 < fileSize" and "0 < cs" and "total_parts fileSize cs = Some n"
  shows "1 \<le> n \<and>
         part_start cs 1 = 0 \<and>
         part_end cs fileSize n = fileSize \<and>
         (\<forall>p. 1 \<le> p \<and> p < n \<longrightarrow>
            part_end cs fileSize p = part_start cs (p + 1) \<and>
            part_end cs fileSize p - part_start cs p = cs) \<and>
         0 < part_end cs fileSize n - part_start cs n \<and>
         part_end cs fileSize n - part_start cs n \<le> cs \<and>
         (\<forall>b. 0 \<le> b \<and> b < fileSize \<longrightarrow>
            (\<exists>!p. 1 \<le> p \<and> p \<le> n \<and> part_start cs p \<le> b \<and> b < part_end cs fileSize p))"
proof (intro conjI allI impI)
  show "1 \<le> n" using assms by (rule total_parts_pos)
  show "part_start cs 1 = 0" by (simp add: part_start_def)
  show "part_end cs fileSize n = fileSize" using assms(2,3) by (rule part_last(1))
  show "0 < part_end cs fileSize n - part_start cs n"
    using part_last[OF assms(2,3)] by simp
  show "part_end cs fileSize n - part_start cs n \<le> cs"
    using part_last[OF assms(2,3)] by simp
next
  fix p assume p: "1 \<le> p \<and> p < n"
  then have f: "part_end cs fileSize p = part_start cs p + cs"
    using part_full[OF assms(2,3)] by simp
  show "part_end cs fileSize p = part_start cs (p + 1)"
    unfolding f by (simp add: part_start_def algebra_simps)
  show "part_end cs fileSize p - part_start cs p = cs" unfolding f by simp
next
  fix b assume b: "0 \<le> b \<and> b < fileSize"
  show "\<exists>!p. 1 \<le> p \<and> p \<le> n \<and> part_start cs p \<le> b \<and> b < part_end cs fileSize p"
  proof (rule ex1I[of _ "b div cs + 1"])
    show "1 \<le> b div cs + 1 \<and> b div cs + 1 \<le> n \<and> part_start cs (b div cs + 1) \<le> b \<and>
          b < part_end cs fileSize (b div cs + 1)"
      using part_exists[OF assms(2,3)] b by simp
  next
    fix p assume "1 \<le> p \<and> p \<le> n \<and> part_start cs p \<le> b \<and> b < part_end cs fileSize p"
    then have "part_start cs p \<le> b" "b < part_start cs p + cs"
      by (simp_all add: part_end_def)
    then show "p = b div cs + 1" using part_index_unique[OF assms(2)] by simp
  qed
qed

text \<open>An instance for C2: 12 MiB in chunks of 5 MiB are parts of 5, 5 and 2 MiB.\<close>

theorem planned_parts_tile_file_witness:
  "(0::int) < 12582912 \<and> total_parts 12582912 5242880 = Some 3 \<and>
   part_start 5242880 1 = 0 \<and> part_end 5242880 12582912 1 = 5242880 \<and>
   part_end 5242880 12582912 2 = 10485760 \<and>
   part_end 5242880 12582912 3 = 12582912 \<and>
   part_end 5242880 12582912 3 - part_start 5242880 3 = 2097152"
proof -
  have t: "total_parts 12582912 5242880 = Some 3" by (simp add: total_parts_def)
  from planned_parts_tile_file[OF _ _ t]
  have "part_end 5242880 12582912 3 = 12582912 \<and>
        (\<forall>p. 1 \<le> p \<and> p < 3 \<longrightarrow> part_end 5242880 12582912 p = part_start 5242880 (p + 1))"
    by simp
  then have "part_end 5242880 12582912 3 = 12582912"
    "part_end 5242880 12582912 1 = part_start 5242880 2"
    "part_end 5242880 12582912 2 = part_start 5242880 3"
    by simp_all
  then show ?thesis using t by (simp add: part_start_def)
qed

subsection \<open>Retries of one part\<close>

lemma loop_entered:
  "int r < mr \<Longrightarrow> \<exists>tr. fst (uploadPart_loop mr rd pn replies r) = Put (Suc r) # tr"
  by (subst uploadPart_loop.simps) (auto split: sum.splits prod.splits)

lemma loop_puts_above:
  "Put n \<in> set (fst (uploadPart_loop mr rd pn replies r)) \<Longrightarrow> r < n"
proof (induction mr rd pn replies r rule: uploadPart_loop.induct)
  case (1 mr rd pn replies retries)
  show ?case
  proof (cases "int retries < mr")
    case False
    with "1.prems" show ?thesis by (subst (asm) uploadPart_loop.simps) simp
  next
    case True
    show ?thesis
    proof (cases "put_attempt pn (replies retries)")
      case (Inr p)
      with True "1.prems" show ?thesis by (subst (asm) uploadPart_loop.simps) simp
    next
      case (Inl e)
      show ?thesis
      proof (cases "mr \<le> int (Suc retries)")
        case True
        with \<open>int retries < mr\<close> Inl "1.prems" show ?thesis
          by (subst (asm) uploadPart_loop.simps) simp
      next
        case False
        from "1.prems" \<open>int retries < mr\<close> Inl False
        have "n = Suc retries \<or> Put n \<in> set (fst (uploadPart_loop mr rd pn replies (Suc retries)))"
          by (subst (asm) uploadPart_loop.simps) (auto split: prod.splits)
        then show ?thesis
          using "1.IH"[OF \<open>int retries < mr\<close> Inl False] by auto
      qed
    qed
  qed
qed

lemma loop_wait_before:
  "Put n \<in> set (fst (uploadPart_loop mr rd pn replies r)) \<Longrightarrow> r + 2 \<le> n \<Longrightarrow>
   wait_before (fst (uploadPart_loop mr rd pn replies r)) n = Some (rd * (int n - 1))"
proof (induction mr rd pn replies r rule: uploadPart_loop.induct)
  case (1 mr rd pn replies retries)
  show ?case
  proof (cases "int retries < mr")
    case False
    with "1.prems" show ?thesis by (subst (asm) uploadPart_loop.simps) simp
  next
    case True
    show ?thesis
    proof (cases "put_attempt pn (replies retries)")
      case (Inr p)
      with True "1.prems" show ?thesis by (subst (asm) uploadPart_loop.simps) simp
    next
      case (Inl e)
      show ?thesis
      proof (cases "mr \<le> int (Suc retries)")
        case True
        with \<open>int retries < mr\<close> Inl "1.prems" show ?thesis
          by (subst (asm) uploadPart_loop.simps) simp
      next
        case False
        define tr' where "tr' = fst (uploadPart_loop mr rd pn replies (Suc retries))"
        have unf: "fst (uploadPart_loop mr rd pn replies retries) =
                   Put (Suc retries) # Wait (rd * int (Suc retries)) # tr'"
          using \<open>int retries < mr\<close> Inl False unfolding tr'_def
          by (subst uploadPart_loop.simps) (auto split: prod.splits)
        from False obtain tr'' where tr'': "tr' = Put (Suc (Suc retries)) # tr''"
          using loop_entered[of "Suc retries" mr rd pn replies] unfolding tr'_def by auto
        show ?thesis
        proof (cases "n = Suc (Suc retries)")
          case True
          then show ?thesis unfolding unf tr'' by simp
        next
          case False
          with "1.prems" unf have mem: "Put n \<in> set tr'" by auto
          then have "Suc retries < n" unfolding tr'_def by (rule loop_puts_above)
          then have "Suc retries + 2 \<le> n" using False by simp
          from "1.IH"[OF \<open>int retries < mr\<close> Inl \<open>\<not> mr \<le> int (Suc retries)\<close>
              mem[unfolded tr'_def] this]
          have "wait_before tr' n = Some (rd * (int n - 1))" unfolding tr'_def .
          then show ?thesis unfolding unf using False tr'' by simp
        qed
      qed
    qed
  qed
qed

lemma loop_attempts_le:
  "int (attempts (fst (uploadPart_loop mr rd pn replies r))) \<le> max 0 (mr - int r)"
proof (induction mr rd pn replies r rule: uploadPart_loop.induct)
  case (1 mr rd pn replies retries)
  show ?case
    using "1.IH"
    by (subst uploadPart_loop.simps) (auto simp: attempts_def split: sum.splits prod.splits)
qed

lemmas run_defaults =
  uploadPart_def constructor_def no_options_def or_default_def truthy_num_def
  default_chunkSize_def default_maxRetries_def default_retryDelay_def put_attempt_def
  five_retries_def fails_thrice_def put_succeeds_def uploadPart_loop.simps

text \<open>
  Claim C3, on the code as it is. \<^verbatim>\<open>uploadPart\<close> never makes more than \<open>maxRetries\<close>
  requests for a part. With the default \<open>maxRetries = 3\<close> and a transfer whose every
  request fails, it makes 3 requests (2 retries) and then throws the error of the
  third; the claim (and the README: each part is retried up to 3 times) asks for 4.
\<close>

theorem uploadPart_attempts_at_most_maxRetries:
  "int (attempts (fst (uploadPart this pn replies))) \<le> max 0 (maxRetries this) \<and>
   maxRetries (constructor no_options) = 3 \<and>
   uploadPart (constructor no_options) 1 (\<lambda>k. Rejects) =
     ([Put 1, Wait 1000, Put 2, Wait 2000, Put 3], Inl NetworkError)"
proof (intro conjI)
  show "int (attempts (fst (uploadPart this pn replies))) \<le> max 0 (maxRetries this)"
    unfolding uploadPart_def using loop_attempts_le[of "maxRetries this" _ pn replies 0] by simp
  show "maxRetries (constructor no_options) = 3"
    by (simp add: run_defaults)
  show "uploadPart (constructor no_options) 1 (\<lambda>k. Rejects) =
          ([Put 1, Wait 1000, Put 2, Wait 2000, Put 3], Inl NetworkError)"
    by (simp add: run_defaults)
qed

text \<open>
  Claim C4. The delay inserted before retry attempt number \<open>n\<close> of a part transfer is
  \<open>retryDelay * n\<close>, where \<open>n\<close> is the attempt number of the code (\<^verbatim>\<open>retries\<close>, the number
  of the attempt that has just failed): linear backoff, retry attempt 2 is preceded by a
  wait of 2 times the base delay and retry attempt 3 by a wait of 3 times.
\<close>

theorem retry_delay_times_attempt_number:
  "retried (fst (uploadPart this pn replies)) n \<Longrightarrow> 1 \<le> n \<Longrightarrow>
   wait_before_retry (fst (uploadPart this pn replies)) n = Some (retryDelay this * int n)"
  unfolding uploadPart_def retried_def wait_before_retry_def
  using loop_wait_before[of "Suc n" "maxRetries this" "retryDelay this" pn replies 0]
  by simp

text \<open>An instance for C4: with up to five attempts and a part whose first three requests
  fail, the waits are 1, 2 and 3 times the base delay of 1000 ms.\<close>

theorem retry_delay_times_attempt_number_witness:
  "retryDelay (constructor five_retries) = 1000 \<and>
   fst (uploadPart (constructor five_retries) 2 fails_thrice) =
     [Put 1, Wait 1000, Put 2, Wait 2000, Put 3, Wait 3000, Put 4] \<and>
   retried (fst (uploadPart (constructor five_retries) 2 fails_thrice)) 2 \<and>
   wait_before_retry (fst (uploadPart (constructor five_retries) 2 fails_thrice)) 2
     = Some (2 * 1000) \<and>
   retried (fst (uploadPart (constructor five_retries) 2 fails_thrice)) 3 \<and>
   wait_before_retry (fst (uploadPart (constructor five_retries) 2 fails_thrice)) 3
     = Some (3 * 1000)"
proof -
  have t: "fst (uploadPart (constructor five_retries) 2 fails_thrice) =
     [Put 1, Wait 1000, Put 2, Wait 2000, Put 3, Wait 3000, Put 4]"
    by (simp add: run_defaults)
  have d: "retryDelay (constructor five_retries) = 1000" by (simp add: run_defaults)
  have r2: "retried (fst (uploadPart (constructor five_retries) 2 fails_thrice)) 2"
    unfolding t by (simp add: retried_def)
  have r3: "retried (fst (uploadPart (constructor five_retries) 2 fails_thrice)) 3"
    unfolding t by (simp add: retried_def)
  from retry_delay_times_attempt_number[OF r2] retry_delay_times_attempt_number[OF r3]
    t d r2 r3
  show ?thesis by simp
qed

subsection \<open>Invariants of a run\<close>

text \<open>A property of the state that every step of a run preserves holds at the end of
  the run. The steps are \<^verbatim>\<open>abort()\<close>, the settling of a part, the dispatch of a batch,
  a progress event and the requests.\<close>

lemma await_reply_preserves:
  assumes ab: "\<And>s. Inv s \<Longrightarrow> Inv (abort s)"
    and res: "\<And>s pn. Inv s \<Longrightarrow> pn \<in> set (inflight s) \<Longrightarrow>
                Inv (snd (uploadSinglePart_resume c n pn s))"
  shows "Inv s \<Longrightarrow> await_reply c n s sched = Some (s', sched') \<Longrightarrow> Inv s'"
proof (induction sched arbitrary: s)
  case Nil
  then show ?case by simp
next
  case (Cons ev evs)
  show ?case
  proof (cases ev)
    case AbortCall
    with Cons.prems(2) have "await_reply c n (abort s) evs = Some (s', sched')" by simp
    with Cons.IH[OF ab[OF Cons.prems(1)]] show ?thesis .
  next
    case Reply
    with Cons.prems show ?thesis by simp
  next
    case (PartSettles pn)
    show ?thesis
    proof (cases "pn \<in> set (inflight s)")
      case True
      with PartSettles Cons.prems(2)
      have "await_reply c n (snd (uploadSinglePart_resume c n pn s)) evs = Some (s', sched')"
        by simp
      with Cons.IH[OF res[OF Cons.prems(1) True]] show ?thesis .
    next
      case False
      with PartSettles Cons.prems(2) have "await_reply c n s evs = Some (s', sched')" by simp
      with Cons.IH[OF Cons.prems(1)] show ?thesis .
    qed
  qed
qed

lemma await_all_preserves:
  assumes ab: "\<And>s. Inv s \<Longrightarrow> Inv (abort s)"
    and res: "\<And>s pn. Inv s \<Longrightarrow> pn \<in> set (inflight s) \<Longrightarrow>
                Inv (snd (uploadSinglePart_resume c n pn s))"
  shows "Inv s \<Longrightarrow> Inv (result_state (await_all c n s sched))"
proof (induction sched arbitrary: s)
  case Nil
  then show ?case by simp
next
  case (Cons ev evs)
  show ?case
  proof (cases "inflight s = []")
    case True
    with Cons.prems show ?thesis by simp
  next
    case False
    show ?thesis
    proof (cases ev)
      case AbortCall
      with False Cons.IH[OF ab[OF Cons.prems]] show ?thesis by simp
    next
      case Reply
      with False Cons.IH[OF Cons.prems] show ?thesis by simp
    next
      case (PartSettles pn)
      show ?thesis
      proof (cases "pn \<in> set (inflight s)")
        case False
        with \<open>inflight s \<noteq> []\<close> PartSettles Cons.IH[OF Cons.prems] show ?thesis by simp
      next
        case True
        obtain r s1 where r: "uploadSinglePart_resume c n pn s = (r, s1)"
          by (cases "uploadSinglePart_resume c n pn s")
        from res[OF Cons.prems True] r have i1: "Inv s1" by simp
        show ?thesis
        proof (cases r)
          case None
          with True \<open>inflight s \<noteq> []\<close> PartSettles r Cons.IH[OF i1] show ?thesis by simp
        next
          case (Some e)
          with True \<open>inflight s \<noteq> []\<close> PartSettles r i1 show ?thesis by simp
        qed
      qed
    qed
  qed
qed

lemma await_all_Fulfilled_inflight:
  "await_all c n s sched = Fulfilled s' sched' \<Longrightarrow> inflight s' = []"
proof (induction sched arbitrary: s)
  case Nil
  then show ?case by (simp split: if_splits)
next
  case (Cons ev evs)
  then show ?case
    by (auto split: if_splits sched_event.splits prod.splits option.splits)
qed

lemma dispatch_batch_error_prefix:
  "dispatch_batch f idxs s = Inl (e, s') \<Longrightarrow>
   \<exists>pre. length pre \<le> length idxs \<and> dispatch_batch f pre s = Inr s'"
proof (induction idxs arbitrary: s)
  case Nil
  then show ?case by simp
next
  case (Cons index rest)
  show ?case
  proof (cases "index < length (presignedUrls (obj s))")
    case False
    with Cons.prems have "s' = s" by simp
    then have "dispatch_batch f [] s = Inr s'" by simp
    then show ?thesis by (intro exI[of _ "[]"]) simp
  next
    case True
    show ?thesis
    proof (cases "presignedUrls (obj s) ! index")
      case None
      with True Cons.prems have "s' = s" by simp
      then have "dispatch_batch f [] s = Inr s'" by simp
      then show ?thesis by (intro exI[of _ "[]"]) simp
    next
      case (Some tok)
      show ?thesis
      proof (cases "uploadSinglePart_start f (index + 1) (url tok) s")
        case (Inl e')
        with True Some Cons.prems have "s' = s" by simp
        then have "dispatch_batch f [] s = Inr s'" by simp
        then show ?thesis by (intro exI[of _ "[]"]) simp
      next
        case (Inr s1)
        with True Some Cons.prems have "dispatch_batch f rest s1 = Inl (e, s')" by simp
        from Cons.IH[OF this] obtain pre where
          pre: "length pre \<le> length rest" "dispatch_batch f pre s1 = Inr s'" by blast
        with True Some Inr have "dispatch_batch f (index # pre) s = Inr s'" by simp
        with pre(1) show ?thesis by (intro exI[of _ "index # pre"]) simp
      qed
    qed
  qed
qed

lemma dispatch_batch_preserves:
  assumes st: "\<And>s pn u s'. Inv s \<Longrightarrow> uploadSinglePart_start f pn u s = Inr s' \<Longrightarrow> Inv s'"
  shows "Inv s \<Longrightarrow> dispatch_batch f idxs s = Inr s' \<Longrightarrow> Inv s'"
proof (induction idxs arbitrary: s)
  case Nil
  then show ?case by simp
next
  case (Cons index rest)
  from Cons.prems(2) obtain u s1 where
    s1: "uploadSinglePart_start f (index + 1) u s = Inr s1"
    and r: "dispatch_batch f rest s1 = Inr s'"
    by (auto split: sum.splits if_splits option.splits)
  from st[OF Cons.prems(1) s1] have "Inv s1" .
  from Cons.IH[OF this r] show ?case .
qed

lemma upload_batches_preserves:
  assumes ab: "\<And>s. Inv s \<Longrightarrow> Inv (abort s)"
    and res: "\<And>s pn. Inv s \<Longrightarrow> pn \<in> set (inflight s) \<Longrightarrow>
                Inv (snd (uploadSinglePart_resume c n pn s))"
    and disp: "\<And>s idxs s'. Inv s \<Longrightarrow> inflight s = [] \<Longrightarrow> length idxs \<le> maxConcurrent \<Longrightarrow>
                dispatch_batch f idxs s = Inr s' \<Longrightarrow> Inv s'"
  shows "Inv s \<Longrightarrow> inflight s = [] \<Longrightarrow> Inv (result_state (upload_batches c f n i s sched)) \<and>
      (\<forall>s' sched'. upload_batches c f n i s sched = Fulfilled s' sched' \<longrightarrow> inflight s' = [])"
proof (induction "n - i" arbitrary: i s sched rule: less_induct)
  case less
  show ?case
  proof (cases "i < n")
    case False
    with less.prems show ?thesis by (subst (1 2) upload_batches.simps) simp
  next
    case True
    note lt = this
    show ?thesis
    proof (cases "aborted (obj s)")
      case True
      with lt less.prems show ?thesis by (subst (1 2) upload_batches.simps) simp
    next
      case False
      note na = this
      show ?thesis
      proof (cases "dispatch_batch f [i ..< min (i + maxConcurrent) n] s")
        case (Inl x)
        obtain e s1 where x: "x = (e, s1)" by (cases x)
        with Inl have "dispatch_batch f [i ..< min (i + maxConcurrent) n] s = Inl (e, s1)"
          by simp
        from dispatch_batch_error_prefix[OF this] obtain pre where
          pre: "length pre \<le> length [i ..< min (i + maxConcurrent) n]"
            "dispatch_batch f pre s = Inr s1" by blast
        from pre(1) have "length pre \<le> maxConcurrent" by simp
        from disp[OF less.prems(1,2) this pre(2)] have "Inv s1" .
        with lt na Inl x show ?thesis by (subst (1 2) upload_batches.simps) simp
      next
        case (Inr s1)
        have "length [i ..< min (i + maxConcurrent) n] \<le> maxConcurrent" by simp
        from disp[OF less.prems(1,2) this Inr] have i1: "Inv s1" .
        from await_all_preserves[of Inv c n, OF ab res i1]
        have i2: "Inv (result_state (await_all c n s1 sched))" by blast
        show ?thesis
        proof (cases "await_all c n s1 sched")
          case (Pending s2)
          with lt na Inr i2 show ?thesis by (subst (1 2) upload_batches.simps) simp
        next
          case (Rejected e s2 sched')
          with lt na Inr i2 show ?thesis by (subst (1 2) upload_batches.simps) simp
        next
          case (Fulfilled s2 sched')
          with i2 have i3: "Inv s2" by simp
          from Fulfilled have e2: "inflight s2 = []" by (rule await_all_Fulfilled_inflight)
          have m: "n - (i + maxConcurrent) < n - i" using lt by (simp add: maxConcurrent_def)
          from less.hyps[OF m i3 e2, of sched']
          show ?thesis using lt na Inr Fulfilled by (subst (1 2) upload_batches.simps) simp
        qed
      qed
    qed
  qed
qed


lemma emit_simps [simp]:
  "obj (emit e s) = obj s" "partsArray (emit e s) = partsArray s"
  "inflight (emit e s) = inflight s" "trace (emit e s) = trace s @ [e]"
  by (simp_all add: emit_def)

lemma onProgress_simps [simp]:
  "obj (onProgress c p s) = obj s" "partsArray (onProgress c p s) = partsArray s"
  "inflight (onProgress c p s) = inflight s"
  "trace (onProgress c p s) = trace s @ (if on_progress c then [ProgressEv p] else [])"
  by (simp_all add: onProgress_def)

lemma abort_simps [simp]:
  "partsArray (abort s) = partsArray s" "inflight (abort s) = inflight s"
  "obj (abort s) = (obj s) \<lparr> aborted := True \<rparr>"
  "trace (abort s) = trace s @ AbortInvoked #
     (if truthy_str (uploadId (obj s)) then [AbortRequest (uploadId (obj s))] else [])"
  by (simp_all add: abort_def Let_def)

lemma await_reply_inflight_empty:
  "inflight s = [] \<Longrightarrow> await_reply c n s sched = Some (s', sched') \<Longrightarrow> inflight s' = []"
  by (rule await_reply_preserves[where Inv = "\<lambda>s. inflight s = []"]) simp_all

lemma sort_tokens_length: "sort_tokens urls = Inr urls' \<Longrightarrow> length urls' = length urls"
  by (auto simp: sort_tokens_def split: if_splits)

lemma sort_tokens_fails:
  "isl (sort_tokens urls) = (2 \<le> length urls \<and> None \<in> set urls)"
  by (auto simp: sort_tokens_def)

lemma getPresignedUrls_chunk:
  "getPresignedUrls this fileSize reply = Inr this' \<Longrightarrow>
   Some (int (length (presignedUrls this'))) = total_parts fileSize (chunkSize this) \<and>
   chunkSize this' = chunkSize this \<and> maxRetries this' = maxRetries this \<and>
   retryDelay this' = retryDelay this \<and> aborted this' = aborted this"
  by (auto simp: getPresignedUrls_def Let_def dest: sort_tokens_length
      split: fetched.splits option.splits if_splits url_field.splits sum.splits)

lemma upload_body_unfold:
  "upload_body c f (initial_state this0) sched =
     (case await_reply c 0 (first_await c this0 f) sched of
        None \<Rightarrow> BPending (first_await c this0 f)
      | Some (s3, sched1) \<Rightarrow>
          (case getPresignedUrls (obj s3) (file_size f) (init_reply c) of
             Inl e \<Rightarrow> BRaise e s3 sched1
           | Inr this' \<Rightarrow>
               (case upload_batches c f (length (presignedUrls this')) 0
                            (batches_start c this' s3) sched1 of
                  Pending s7 \<Rightarrow> BPending s7
                | Rejected e s7 sched2 \<Rightarrow> BRaise e s7 sched2
                | Fulfilled s7 sched2 \<Rightarrow>
                    (case await_reply c (length (presignedUrls this'))
                            (complete_request c s7) sched2 of
                       None \<Rightarrow> BPending (complete_request c s7)
                     | Some (s10, sched3) \<Rightarrow>
                         (case completeUpload (complete_reply c) of
                            Inl e \<Rightarrow> BRaise e s10 sched3
                          | Inr result \<Rightarrow>
                              BReturn result (onProgress c (Completed result) s10))))))"
  by (simp add: upload_body_def Let_def first_await_def initial_state_def complete_request_def
      batches_start_def cong: option.case_cong sum.case_cong await_result.case_cong)

lemma upload_body_invariant:
  assumes init: "Inv (first_await c this0 f)"
    and ab: "\<And>s. Inv s \<Longrightarrow> Inv (abort s)"
    and res: "\<And>s n pn. Inv s \<Longrightarrow> pn \<in> set (inflight s) \<Longrightarrow>
                Inv (snd (uploadSinglePart_resume c n pn s))"
    and disp: "\<And>s idxs s'. Inv s \<Longrightarrow> inflight s = [] \<Longrightarrow> length idxs \<le> maxConcurrent \<Longrightarrow>
                dispatch_batch f idxs s = Inr s' \<Longrightarrow> Inv s'"
    and prog: "\<And>s p. Inv s \<Longrightarrow> Inv (onProgress c p s)"
    and got: "\<And>s this'. Inv s \<Longrightarrow> inflight s = [] \<Longrightarrow>
                getPresignedUrls (obj s) (file_size f) (init_reply c) = Inr this' \<Longrightarrow>
                Inv (batches_start c this' s)"
    and cr: "\<And>s6 s7 sched1 sched2. Inv s6 \<Longrightarrow> Inv s7 \<Longrightarrow> inflight s6 = [] \<Longrightarrow>
                partsArray s6 = replicate (length (presignedUrls (obj s6))) None \<Longrightarrow>
                Some (int (length (presignedUrls (obj s6))))
                  = total_parts (file_size f) (chunkSize (obj s6)) \<Longrightarrow>
                upload_batches c f (length (presignedUrls (obj s6))) 0 s6 sched1
                  = Fulfilled s7 sched2 \<Longrightarrow>
                Inv (complete_request c s7)"
  shows "Inv (body_state (upload_body c f (initial_state this0) sched))"
proof -
  define s2 where "s2 = first_await c this0 f"
  have ar: "Inv s'" if "Inv s" "await_reply c n s sched = Some (s', sched')"
    for n s sched s' sched'
    by (rule await_reply_preserves[where Inv = Inv and c = c and n = n, OF _ _ that])
       (fact ab res)+
  have inf2: "inflight s2 = []" by (simp add: s2_def first_await_def initial_state_def)
  have i2: "Inv s2" using init by (simp add: s2_def)
  note body = upload_body_unfold[of c f this0 sched, folded s2_def]
  show ?thesis
  proof (cases "await_reply c 0 s2 sched")
    case None
    with i2 show ?thesis by (simp add: body)
  next
    case (Some a)
    then obtain s3 sched1 where a3: "await_reply c 0 s2 sched = Some (s3, sched1)"
      by (cases a) simp
    from ar[OF i2 a3] have i3: "Inv s3" .
    from await_reply_inflight_empty[OF inf2 a3] have inf3: "inflight s3 = []" .
    show ?thesis
    proof (cases "getPresignedUrls (obj s3) (file_size f) (init_reply c)")
      case (Inl e)
      with a3 i3 show ?thesis by (simp add: body)
    next
      case (Inr this')
      define s6 where "s6 = batches_start c this' s3"
      define n where "n = length (presignedUrls this')"
      from got[OF i3 inf3 Inr] have i6: "Inv s6" by (simp add: s6_def)
      have inf6: "inflight s6 = []" using inf3 by (simp add: s6_def batches_start_def)
      have o6: "obj s6 = this'" by (simp add: s6_def batches_start_def)
      have p6: "partsArray s6 = replicate (length (presignedUrls (obj s6))) None"
        by (simp add: s6_def batches_start_def)
      have "Inv (result_state (upload_batches c f n 0 s6 sched1)) \<and>
            (\<forall>s' sched'. upload_batches c f n 0 s6 sched1 = Fulfilled s' sched'
               \<longrightarrow> inflight s' = [])"
        by (rule upload_batches_preserves[where Inv = Inv, OF _ _ _ i6 inf6]) (fact ab res disp)+
      then have i7: "Inv (result_state (upload_batches c f n 0 s6 sched1))" by blast
      show ?thesis
      proof (cases "upload_batches c f n 0 s6 sched1")
        case (Pending s7)
        with a3 Inr i7 show ?thesis by (simp add: body s6_def n_def)
      next
        case (Rejected e s7 sched2)
        with a3 Inr i7 show ?thesis by (simp add: body s6_def n_def)
      next
        case (Fulfilled s7 sched2)
        with i7 have i7': "Inv s7" by simp
        from Fulfilled have "upload_batches c f (length (presignedUrls (obj s6))) 0 s6 sched1
            = Fulfilled s7 sched2" by (simp add: o6 n_def)
        moreover have "Some (int (length (presignedUrls (obj s6))))
            = total_parts (file_size f) (chunkSize (obj s6))"
          using getPresignedUrls_chunk[OF Inr] by (simp add: o6)
        ultimately have i9: "Inv (complete_request c s7)"
          using cr[OF i6 i7' inf6 p6] by blast
        show ?thesis
        proof (cases "await_reply c n (complete_request c s7) sched2")
          case None
          with a3 Inr Fulfilled i9 show ?thesis by (simp add: body s6_def n_def)
        next
          case (Some b)
          then obtain s10 sched3 where
            a10: "await_reply c n (complete_request c s7) sched2 = Some (s10, sched3)"
            by (cases b) simp
          from ar[OF i9 a10] have i10: "Inv s10" .
          show ?thesis
          proof (cases "completeUpload (complete_reply c)")
            case (Inl e)
            with a3 Inr Fulfilled a10 i10 show ?thesis by (simp add: body s6_def n_def)
          next
            case (Inr result)
            with a3 \<open>getPresignedUrls (obj s3) (file_size f) (init_reply c) = Inr this'\<close>
              Fulfilled a10 prog[OF i10] show ?thesis by (simp add: body s6_def n_def)
          qed
        qed
      qed
    qed
  qed
qed

lemma upload_unfold:
  "upload c this0 f sched =
     (case upload_body c f (initial_state this0) sched of
        BPending s \<Rightarrow> (s, Hangs)
      | BReturn result s \<Rightarrow> (s, Returned result)
      | BRaise e s sched' \<Rightarrow>
          if truthy_str (uploadId (obj s)) then
            (case await_reply c (length (partsArray s)) (abort_request s) sched' of
               None \<Rightarrow> (abort_request s, Hangs)
             | Some (s2, sched'') \<Rightarrow> (onProgress c (ErrorEvent e) s2, Raised e))
          else (onProgress c (ErrorEvent e) s, Raised e))"
  by (simp add: upload_def Let_def initial_state_def abort_request_def abortUpload_def
      split: fetched.splits cong: body_result.case_cong option.case_cong if_cong)

lemma upload_invariant:
  assumes init: "Inv (first_await c this0 f)"
    and ab: "\<And>s. Inv s \<Longrightarrow> Inv (abort s)"
    and res: "\<And>s n pn. Inv s \<Longrightarrow> pn \<in> set (inflight s) \<Longrightarrow>
                Inv (snd (uploadSinglePart_resume c n pn s))"
    and disp: "\<And>s idxs s'. Inv s \<Longrightarrow> inflight s = [] \<Longrightarrow> length idxs \<le> maxConcurrent \<Longrightarrow>
                dispatch_batch f idxs s = Inr s' \<Longrightarrow> Inv s'"
    and prog: "\<And>s p. Inv s \<Longrightarrow> Inv (onProgress c p s)"
    and got: "\<And>s this'. Inv s \<Longrightarrow> inflight s = [] \<Longrightarrow>
                getPresignedUrls (obj s) (file_size f) (init_reply c) = Inr this' \<Longrightarrow>
                Inv (batches_start c this' s)"
    and cr: "\<And>s6 s7 sched1 sched2. Inv s6 \<Longrightarrow> Inv s7 \<Longrightarrow> inflight s6 = [] \<Longrightarrow>
                partsArray s6 = replicate (length (presignedUrls (obj s6))) None \<Longrightarrow>
                Some (int (length (presignedUrls (obj s6))))
                  = total_parts (file_size f) (chunkSize (obj s6)) \<Longrightarrow>
                upload_batches c f (length (presignedUrls (obj s6))) 0 s6 sched1
                  = Fulfilled s7 sched2 \<Longrightarrow>
                Inv (complete_request c s7)"
    and abreq: "\<And>s. Inv s \<Longrightarrow> Inv (abort_request s)"
  shows "Inv (fst (upload c this0 f sched))"
proof -
  have ar: "Inv s'" if "Inv s" "await_reply c n s sched = Some (s', sched')"
    for n s sched s' sched'
    by (rule await_reply_preserves[where Inv = Inv and c = c and n = n, OF _ _ that])
       (fact ab res)+
  have b: "Inv (body_state (upload_body c f (initial_state this0) sched))"
    by (rule upload_body_invariant[where Inv = Inv]) (fact init ab res disp prog got cr)+
  show ?thesis
  proof (cases "upload_body c f (initial_state this0) sched")
    case (BPending s)
    with b show ?thesis by (simp add: upload_unfold)
  next
    case (BReturn r s)
    with b show ?thesis by (simp add: upload_unfold)
  next
    case (BRaise e s sched')
    with b have i: "Inv s" by simp
    show ?thesis
    proof (cases "truthy_str (uploadId (obj s))")
      case False
      with BRaise prog[OF i] show ?thesis by (simp add: upload_unfold)
    next
      case True
      show ?thesis
      proof (cases "await_reply c (length (partsArray s)) (abort_request s) sched'")
        case None
        with BRaise True abreq[OF i] show ?thesis by (simp add: upload_unfold)
      next
        case (Some a)
        then obtain s2 sched'' where
          a2: "await_reply c (length (partsArray s)) (abort_request s) sched' = Some (s2, sched'')"
          by (cases a) simp
        from ar[OF abreq[OF i] a2] have "Inv s2" .
        with BRaise True a2 prog show ?thesis by (simp add: upload_unfold)
      qed
    qed
  qed
qed

lemma resume_effect:
  "obj (snd (uploadSinglePart_resume c n pn s)) = obj s"
  "inflight (snd (uploadSinglePart_resume c n pn s)) = remove1 pn (inflight s)"
  "partsArray (snd (uploadSinglePart_resume c n pn s)) =
     (case snd (uploadPart (obj s) pn (put_replies c pn)) of
        Inl e \<Rightarrow> partsArray s
      | Inr p \<Rightarrow> array_set (partsArray s) (pn - 1) p)"
  "trace (snd (uploadSinglePart_resume c n pn s)) =
     trace s @ Settled pn #
     (case snd (uploadPart (obj s) pn (put_replies c pn)) of
        Inl e \<Rightarrow> []
      | Inr p \<Rightarrow> progress_of c
          (Uploaded (length (defined_parts (array_set (partsArray s) (pn - 1) p))) n pn))"
  by (simp_all add: uploadSinglePart_resume_def Let_def progress_of_def split: sum.splits)

lemma resume_result:
  "fst (uploadSinglePart_resume c n pn s) =
     (case snd (uploadPart (obj s) pn (put_replies c pn)) of Inl e \<Rightarrow> Some e | Inr p \<Rightarrow> None)"
  by (simp add: uploadSinglePart_resume_def Let_def split: sum.splits)

lemma start_effect:
  assumes "uploadSinglePart_start f pn u s = Inr s'"
  shows "obj s' = obj s" "partsArray s' = partsArray s" "inflight s' = inflight s @ [pn]"
    "trace s' = trace s @ [Dispatch pn u (part_start (chunkSize (obj s)) (int pn),
                                         part_end (chunkSize (obj s)) (file_size f) (int pn))]"
    "\<not> aborted (obj s)"
  using assms by (auto simp: uploadSinglePart_start_def Let_def split: if_splits)

lemma in_flight_simps [simp]:
  "in_flight [] = 0"
  "in_flight (tr @ [Dispatch pn u r]) = in_flight tr + 1"
  "in_flight (tr @ [Settled pn]) = in_flight tr - 1"
  by (simp_all add: in_flight_def)

lemma in_flight_quiet:
  "\<not> is_Dispatch e \<Longrightarrow> \<not> is_Settled e \<Longrightarrow> in_flight (tr @ [e]) = in_flight tr"
  by (simp add: in_flight_def)

lemma peak_ok_snoc:
  "peak_ok tr \<Longrightarrow> in_flight (tr @ [e]) \<le> int maxConcurrent \<Longrightarrow> peak_ok (tr @ [e])"
  unfolding peak_ok_def
proof
  fix k
  assume a: "\<forall>k. in_flight (take k tr) \<le> int maxConcurrent"
    and b: "in_flight (tr @ [e]) \<le> int maxConcurrent"
  show "in_flight (take k (tr @ [e])) \<le> int maxConcurrent"
  proof (cases "k \<le> length tr")
    case True
    then show ?thesis using a by simp
  next
    case False
    then show ?thesis using b by simp
  qed
qed

subsection \<open>The concurrency ceiling\<close>

lemma flight_inv_quiet:
  assumes "flight_inv s" "\<not> is_Dispatch e" "\<not> is_Settled e"
    "trace s' = trace s @ [e]" "inflight s' = inflight s"
  shows "flight_inv s'"
  using assms unfolding flight_inv_def
  by (simp add: in_flight_quiet peak_ok_snoc)

lemma flight_inv_emit:
  "flight_inv s \<Longrightarrow> \<not> is_Dispatch e \<Longrightarrow> \<not> is_Settled e \<Longrightarrow> flight_inv (emit e s)"
  by (rule flight_inv_quiet[where e = e and s = s]) simp_all

lemma flight_inv_onProgress: "flight_inv s \<Longrightarrow> flight_inv (onProgress c p s)"
  by (simp add: onProgress_def flight_inv_emit)

lemma flight_inv_abort: "flight_inv s \<Longrightarrow> flight_inv (abort s)"
  by (simp add: abort_def Let_def flight_inv_emit flight_inv_quiet[where e = AbortInvoked and s = s])

lemma flight_inv_fields:
  "trace s' = trace s \<Longrightarrow> inflight s' = inflight s \<Longrightarrow> flight_inv s' = flight_inv s"
  by (simp add: flight_inv_def)

lemma flight_inv_resume:
  assumes "flight_inv s" "pn \<in> set (inflight s)"
  shows "flight_inv (snd (uploadSinglePart_resume c n pn s))"
proof -
  define s1 where "s1 = emit (Settled pn) (s \<lparr> inflight := remove1 pn (inflight s) \<rparr>)"
  have l: "length (remove1 pn (inflight s)) = length (inflight s) - 1"
    using assms(2) by (simp add: length_remove1)
  have pos: "0 < length (inflight s)" using assms(2) by (cases "inflight s") auto
  have d: "int (length (inflight s) - 1) = int (length (inflight s)) - 1"
    using pos by (cases "length (inflight s)") simp_all
  have f1: "flight_inv s1"
    using assms(1) l d unfolding flight_inv_def s1_def
    by (auto simp: peak_ok_snoc)
  show ?thesis
  proof (cases "snd (uploadPart (obj s) pn (put_replies c pn))")
    case (Inl e)
    then show ?thesis using f1
      by (simp add: uploadSinglePart_resume_def Let_def s1_def)
  next
    case (Inr p)
    have "flight_inv (s1 \<lparr> partsArray := array_set (partsArray s1) (pn - 1) p \<rparr>)"
      using f1 by (simp add: flight_inv_def)
    then show ?thesis using Inr
      by (simp add: uploadSinglePart_resume_def Let_def s1_def[symmetric] flight_inv_onProgress)
  qed
qed

lemma flight_inv_dispatch:
  "flight_inv s \<Longrightarrow> length (inflight s) + length idxs \<le> maxConcurrent \<Longrightarrow>
   dispatch_batch f idxs s = Inr s' \<Longrightarrow> flight_inv s'"
proof (induction idxs arbitrary: s)
  case Nil
  then show ?case by simp
next
  case (Cons index rest)
  from Cons.prems(3) obtain u s1 where
    s1: "uploadSinglePart_start f (index + 1) u s = Inr s1"
    and r: "dispatch_batch f rest s1 = Inr s'"
    by (auto split: sum.splits if_splits option.splits)
  note e = start_effect[OF s1]
  have "flight_inv s1"
    using Cons.prems(1,2) unfolding flight_inv_def e
    by (simp add: peak_ok_snoc)
  moreover have "length (inflight s1) + length rest \<le> maxConcurrent"
    using Cons.prems(2) by (simp add: e)
  ultimately show ?case using r by (rule Cons.IH)
qed

lemma flight_inv_upload: "flight_inv (fst (upload c this0 f sched))"
proof (rule upload_invariant[where Inv = flight_inv])
  have "flight_inv (initial_state this0)"
    by (simp add: flight_inv_def initial_state_def peak_ok_def)
  then have "flight_inv (onProgress c Initiating (initial_state this0))"
    by (rule flight_inv_onProgress)
  then show "flight_inv (first_await c this0 f)"
    unfolding first_await_def by (rule flight_inv_emit) simp_all
next
  fix s this'
  assume "flight_inv s"
  then have "flight_inv (s \<lparr> obj := this' \<rparr>)" by (simp add: flight_inv_def)
  then have "flight_inv (onProgress c (UploadingStart (length (presignedUrls this')))
                           (s \<lparr> obj := this' \<rparr>))"
    by (rule flight_inv_onProgress)
  then show "flight_inv (batches_start c this' s)"
    by (simp add: batches_start_def flight_inv_def)
next
  fix s idxs s'
  assume "flight_inv s" "inflight s = []" "length idxs \<le> maxConcurrent"
    "dispatch_batch f idxs s = Inr s'"
  then show "flight_inv s'" using flight_inv_dispatch[of s idxs f s'] by simp
qed (simp_all add: flight_inv_abort flight_inv_resume flight_inv_onProgress
      complete_request_def abort_request_def flight_inv_emit)

text \<open>
  Claim C9. At every instant of a run of \<^verbatim>\<open>upload\<close> (after any number \<open>k\<close> of its events),
  the number of part transfers dispatched and not yet settled is at most the concurrency
  limit \<open>maxConcurrent = 5\<close>, for every file, every reply of the network and every order
  in which transfers settle.
\<close>

theorem at_most_maxConcurrent_in_flight:
  "in_flight (take k (trace (fst (upload c this0 f sched)))) \<le> int maxConcurrent \<and>
   maxConcurrent = 5"
  using flight_inv_upload[of c this0 f sched]
  by (simp add: flight_inv_def peak_ok_def maxConcurrent_def)

text \<open>A run for C9: of six parts, the five of the first batch are in flight at once.\<close>

theorem at_most_maxConcurrent_in_flight_witness:
  "in_flight (take 8 (trace (fst (upload (example_env six_tokens (\<lambda>pn k. put_succeeds))
      (constructor no_options) (example_file 26214401) [Reply])))) = 5 \<and>
   in_flight (take 8 (trace (fst (upload (example_env six_tokens (\<lambda>pn k. put_succeeds))
      (constructor no_options) (example_file 26214401) [Reply])))) \<le> int maxConcurrent \<and>
   snd (upload (example_env six_tokens (\<lambda>pn k. put_succeeds))
      (constructor no_options) (example_file 26214401) [Reply]) = Hangs"
proof -
  have a: "in_flight (take 8 (trace (fst (upload (example_env six_tokens (\<lambda>pn k. put_succeeds))
      (constructor no_options) (example_file 26214401) [Reply])))) = 5"
    by code_simp
  have b: "snd (upload (example_env six_tokens (\<lambda>pn k. put_succeeds))
      (constructor no_options) (example_file 26214401) [Reply]) = Hangs"
    by code_simp
  from at_most_maxConcurrent_in_flight[of 8 "example_env six_tokens (\<lambda>pn k. put_succeeds)"
      "constructor no_options" "example_file 26214401" "[Reply]"] a b
  show ?thesis by simp
qed

subsection \<open>Abort\<close>

lemma after_abort_snoc:
  "after_abort (tr @ [e]) =
     (if AbortInvoked \<in> set tr then after_abort tr @ [e]
      else if e = AbortInvoked then [e] else [])"
  by (auto simp: after_abort_def dropWhile_append)

lemma abort_inv_quiet:
  assumes "abort_inv s" "\<not> is_Dispatch e" "e \<noteq> AbortInvoked"
    "trace s' = trace s @ [e]" "aborted (obj s') = aborted (obj s)"
  shows "abort_inv s'"
  using assms unfolding abort_inv_def by (auto simp: after_abort_snoc)

lemma abort_inv_emit:
  "abort_inv s \<Longrightarrow> \<not> is_Dispatch e \<Longrightarrow> e \<noteq> AbortInvoked \<Longrightarrow> abort_inv (emit e s)"
  by (rule abort_inv_quiet[where e = e and s = s]) simp_all

lemma abort_inv_onProgress: "abort_inv s \<Longrightarrow> abort_inv (onProgress c p s)"
  by (simp add: onProgress_def abort_inv_emit)

lemma abort_inv_abort: "abort_inv s \<Longrightarrow> abort_inv (abort s)"
proof -
  assume a: "abort_inv s"
  define s1 where "s1 = (emit AbortInvoked s) \<lparr> obj := (obj s) \<lparr> aborted := True \<rparr> \<rparr>"
  have "abort_inv s1"
    using a unfolding abort_inv_def s1_def by (auto simp: after_abort_snoc)
  then show ?thesis
    by (simp add: abort_def Let_def s1_def[symmetric] abort_inv_emit)
qed

lemma abort_inv_resume: "abort_inv s \<Longrightarrow> abort_inv (snd (uploadSinglePart_resume c n pn s))"
proof -
  assume a: "abort_inv s"
  define s1 where "s1 = emit (Settled pn) (s \<lparr> inflight := remove1 pn (inflight s) \<rparr>)"
  have f1: "abort_inv s1"
    by (rule abort_inv_quiet[where e = "Settled pn" and s = s]) (simp_all add: a s1_def)
  show ?thesis
  proof (cases "snd (uploadPart (obj s) pn (put_replies c pn))")
    case (Inl e)
    then show ?thesis using f1 by (simp add: uploadSinglePart_resume_def Let_def s1_def)
  next
    case (Inr p)
    have "abort_inv (s1 \<lparr> partsArray := array_set (partsArray s1) (pn - 1) p \<rparr>)"
      using f1 by (simp add: abort_inv_def)
    then show ?thesis using Inr
      by (simp add: uploadSinglePart_resume_def Let_def s1_def[symmetric] abort_inv_onProgress)
  qed
qed

lemma abort_inv_start:
  assumes "abort_inv s" "uploadSinglePart_start f pn u s = Inr s'"
  shows "abort_inv s'"
proof -
  note e = start_effect[OF assms(2)]
  from assms(1) e(5) have "AbortInvoked \<notin> set (trace s)" by (auto simp: abort_inv_def)
  then show ?thesis using assms(1) unfolding abort_inv_def e
    by (auto simp: after_abort_snoc)
qed

lemma abort_inv_upload: "abort_inv (fst (upload c this0 f sched))"
proof (rule upload_invariant[where Inv = abort_inv])
  have "abort_inv (initial_state this0)"
    by (simp add: abort_inv_def initial_state_def after_abort_def)
  then have "abort_inv (onProgress c Initiating (initial_state this0))"
    by (rule abort_inv_onProgress)
  then show "abort_inv (first_await c this0 f)"
    unfolding first_await_def by (rule abort_inv_emit) simp_all
next
  fix s this'
  assume a: "abort_inv s"
    and g: "getPresignedUrls (obj s) (file_size f) (init_reply c) = Inr this'"
  from getPresignedUrls_chunk[OF g] have "aborted this' = aborted (obj s)" by simp
  with a have "abort_inv (s \<lparr> obj := this' \<rparr>)" by (simp add: abort_inv_def)
  then have "abort_inv (onProgress c (UploadingStart (length (presignedUrls this')))
                          (s \<lparr> obj := this' \<rparr>))"
    by (rule abort_inv_onProgress)
  then show "abort_inv (batches_start c this' s)"
    by (simp add: batches_start_def abort_inv_def)
next
  fix s idxs s'
  assume "abort_inv s" "dispatch_batch f idxs s = Inr s'"
  then show "abort_inv s'"
    by (rule dispatch_batch_preserves[where Inv = abort_inv, rotated]) (rule abort_inv_start)
qed (simp_all add: abort_inv_abort abort_inv_resume abort_inv_onProgress
      complete_request_def abort_request_def abort_inv_emit)

text \<open>
  Claim C8, amended. \<^verbatim>\<open>abort()\<close> never throws: it sets the flag and starts \<^verbatim>\<open>abortUpload\<close>,
  whose promise is fulfilled whatever the transport does. Once the flag is set,
  \<^verbatim>\<open>uploadSinglePart\<close> throws before it calls \<^verbatim>\<open>uploadPart\<close>, and from the first call of
  \<^verbatim>\<open>abort()\<close> on a run of \<^verbatim>\<open>upload\<close> dispatches no part transfer. The result of a
  transfer that was in flight is not discarded: when the transfer completes, its part is
  stored in \<^verbatim>\<open>partsArray\<close> and reported through \<^verbatim>\<open>onProgress\<close>, with the flag set as
  without it.
\<close>

theorem abort_stops_dispatch_keeps_results:
  assumes "aborted (obj s)"
    and "snd (uploadPart (obj s) pn (put_replies c pn)) = Inr p"
  shows "abortUpload r = Inr () \<and>
         aborted (obj (abort s0)) \<and>
         uploadSinglePart_start f pn' u s = Inl UploadAborted \<and>
         filter is_Dispatch (after_abort (trace (fst (upload c this0 f sched)))) = [] \<and>
         partsArray (snd (uploadSinglePart_resume c n pn s))
           = array_set (partsArray s) (pn - 1) p \<and>
         trace (snd (uploadSinglePart_resume c n pn s))
           = trace s @ Settled pn #
               progress_of c
                 (Uploaded (length (defined_parts (array_set (partsArray s) (pn - 1) p))) n pn)"
proof (intro conjI)
  show "abortUpload r = Inr ()" by (simp add: abortUpload_def split: fetched.splits)
  show "aborted (obj (abort s0))" by simp
  show "uploadSinglePart_start f pn' u s = Inl UploadAborted"
    using assms(1) by (simp add: uploadSinglePart_start_def)
  show "filter is_Dispatch (after_abort (trace (fst (upload c this0 f sched)))) = []"
    using abort_inv_upload[of c this0 f sched] by (simp add: abort_inv_def)
  show "partsArray (snd (uploadSinglePart_resume c n pn s))
           = array_set (partsArray s) (pn - 1) p"
    using assms(2) by (simp add: resume_effect)
  show "trace (snd (uploadSinglePart_resume c n pn s))
           = trace s @ Settled pn #
               progress_of c
                 (Uploaded (length (defined_parts (array_set (partsArray s) (pn - 1) p))) n pn)"
    using assms(2) by (simp add: resume_effect)
qed

text \<open>
  Claim C8, as stated, fails: \<^verbatim>\<open>abort()\<close> is called while part 2 of a two-part upload is
  in flight. When part 2 completes, its result is stored and reported as progress, and
  the upload goes on to the complete request with both parts and returns.
\<close>

theorem abort_discards_results_counterexample:
  "trace (fst (upload (example_env two_tokens (\<lambda>pn k. put_succeeds)) (constructor no_options)
     (example_file 6291456) abort_mid_batch)) =
   [ProgressEv Initiating, InitiateRequest 6291456 (Some 2), ProgressEv (UploadingStart 2),
    Dispatch 1 (Some ''u1'') (0, 5242880), Dispatch 2 (Some ''u2'') (5242880, 6291456),
    Settled 1, ProgressEv (Uploaded 1 2 1),
    AbortInvoked, AbortRequest (Some ''id''),
    Settled 2, ProgressEv (Uploaded 2 2 2),
    ProgressEv Completing,
    CompleteRequest (Some ''id'')
      [\<lparr> PartNumber = 1, ETag = ''e1'' \<rparr>, \<lparr> PartNumber = 2, ETag = ''e1'' \<rparr>],
    ProgressEv (Completed \<lparr> r_error = None, r_message = None, r_location = ''loc'' \<rparr>)] \<and>
   snd (upload (example_env two_tokens (\<lambda>pn k. put_succeeds)) (constructor no_options)
     (example_file 6291456) abort_mid_batch) =
   Returned \<lparr> r_error = None, r_message = None, r_location = ''loc'' \<rparr>"
  by code_simp

text \<open>An instance for C8: the run above, and a state with the flag set and part 2 in
  flight.\<close>

theorem abort_stops_dispatch_keeps_results_witness:
  "aborted (obj aborted_state) \<and>
   after_abort (trace (fst (upload (example_env two_tokens (\<lambda>pn k. put_succeeds))
      (constructor no_options) (example_file 6291456) abort_mid_batch))) =
     [AbortInvoked, AbortRequest (Some ''id''), Settled 2, ProgressEv (Uploaded 2 2 2),
      ProgressEv Completing,
      CompleteRequest (Some ''id'')
        [\<lparr> PartNumber = 1, ETag = ''e1'' \<rparr>, \<lparr> PartNumber = 2, ETag = ''e1'' \<rparr>],
      ProgressEv (Completed \<lparr> r_error = None, r_message = None, r_location = ''loc'' \<rparr>)] \<and>
   filter is_Dispatch (after_abort (trace (fst (upload (example_env two_tokens
      (\<lambda>pn k. put_succeeds)) (constructor no_options) (example_file 6291456)
      abort_mid_batch)))) = [] \<and>
   partsArray (snd (uploadSinglePart_resume (example_env two_tokens (\<lambda>pn k. put_succeeds))
      2 2 aborted_state)) =
     [Some \<lparr> PartNumber = 1, ETag = ''e1'' \<rparr>, Some \<lparr> PartNumber = 2, ETag = ''e1'' \<rparr>]"
proof -
  have a: "aborted (obj aborted_state)" by code_simp
  have b: "snd (uploadPart (obj aborted_state) 2
                  (put_replies (example_env two_tokens (\<lambda>pn k. put_succeeds)) 2))
           = Inr (Some \<lparr> PartNumber = 2, ETag = ''e1'' \<rparr>)" by code_simp
  have t: "after_abort (trace (fst (upload (example_env two_tokens (\<lambda>pn k. put_succeeds))
      (constructor no_options) (example_file 6291456) abort_mid_batch))) =
     [AbortInvoked, AbortRequest (Some ''id''), Settled 2, ProgressEv (Uploaded 2 2 2),
      ProgressEv Completing,
      CompleteRequest (Some ''id'')
        [\<lparr> PartNumber = 1, ETag = ''e1'' \<rparr>, \<lparr> PartNumber = 2, ETag = ''e1'' \<rparr>],
      ProgressEv (Completed \<lparr> r_error = None, r_message = None, r_location = ''loc'' \<rparr>)]"
    by code_simp
  have p: "array_set (partsArray aborted_state) (2 - 1) (Some \<lparr> PartNumber = 2, ETag = ''e1'' \<rparr>)
       = [Some \<lparr> PartNumber = 1, ETag = ''e1'' \<rparr>, Some \<lparr> PartNumber = 2, ETag = ''e1'' \<rparr>]"
    by code_simp
  from abort_stops_dispatch_keeps_results[OF a b,
      where ?this0.0 = "constructor no_options" and f = "example_file 6291456"
        and sched = abort_mid_batch and n = 2]
  show ?thesis using a t p by simp
qed

subsection \<open>The first request\<close>

lemma extends_trace:
  "extends tr0 s \<Longrightarrow> trace s' = trace s @ es \<Longrightarrow> extends tr0 s'"
  by (auto simp: extends_def)

lemma extends_upload:
  "extends (trace (first_await c this0 f)) (fst (upload c this0 f sched))"
proof (rule upload_invariant[where Inv = "extends (trace (first_await c this0 f))"])
  show "extends (trace (first_await c this0 f)) (first_await c this0 f)"
    by (simp add: extends_def)
next
  fix s idxs s'
  assume "extends (trace (first_await c this0 f)) s" "dispatch_batch f idxs s = Inr s'"
  then show "extends (trace (first_await c this0 f)) s'"
    by (rule dispatch_batch_preserves[where Inv = "extends (trace (first_await c this0 f))", rotated])
       (auto simp: start_effect elim: extends_trace)
qed (auto simp: resume_effect batches_start_def complete_request_def abort_request_def
      elim: extends_trace)

text \<open>
  Claim C7, amended. \<^verbatim>\<open>upload\<close> checks neither the file size nor the chunk size. For every
  file and every uploader, also with a file size of zero or a negative chunk size, the
  run starts with the \<^verbatim>\<open>initiating\<close> progress event (when \<^verbatim>\<open>onProgress\<close> is given) and the
  authorization request, which carries \<open>totalParts = ceil (fileSize / chunkSize)\<close>.
\<close>

theorem upload_starts_with_authorization_request:
  "\<exists>rest. trace (fst (upload c this0 f sched)) =
      progress_of c Initiating @
      InitiateRequest (file_size f) (total_parts (file_size f) (chunkSize this0)) # rest"
  using extends_upload[of c this0 f sched]
  by (simp add: extends_def first_await_def initial_state_def progress_of_def)

text \<open>
  Claim C7, as stated, fails: for an empty file \<^verbatim>\<open>upload\<close> raises no error. It sends the
  authorization request with \<open>totalParts = 0\<close> and, when the collaborator answers with an
  empty token list, completes the upload with no parts.
\<close>

theorem empty_file_counterexample:
  "upload (example_env [] (\<lambda>pn k. put_succeeds)) (constructor no_options) (example_file 0)
     [Reply, Reply] =
   (\<lparr> obj = (constructor no_options)
              \<lparr> uploadId := Some ''id'', bucket := Some ''b'', key := Some ''k'' \<rparr>,
       partsArray = [], inflight = [],
       trace = [ProgressEv Initiating, InitiateRequest 0 (Some 0), ProgressEv (UploadingStart 0),
                ProgressEv Completing, CompleteRequest (Some ''id'') [],
                ProgressEv (Completed \<lparr> r_error = None, r_message = None,
                                        r_location = ''loc'' \<rparr>)] \<rparr>,
    Returned \<lparr> r_error = None, r_message = None, r_location = ''loc'' \<rparr>)"
  by code_simp

subsection \<open>Validation of the tokens\<close>

lemma getPresignedUrls_error_cong:
  "chunkSize a = chunkSize b \<Longrightarrow> getPresignedUrls a fs r = Inl e \<Longrightarrow>
   getPresignedUrls b fs r = Inl e"
  by (auto simp: getPresignedUrls_def Let_def
      split: fetched.splits option.splits if_splits url_field.splits sum.splits)






subsection \<open>Failure of a stage\<close>

lemma aftermath_of_step:
  "aftermath_of tr0 s \<Longrightarrow> trace s' = trace s @ es \<Longrightarrow>
   filter (\<lambda>x. \<not> is_aftermath x) es = [] \<Longrightarrow> aftermath_of tr0 s'"
  by (auto simp: aftermath_of_def)

lemma aftermath_of_abort: "aftermath_of tr0 s \<Longrightarrow> aftermath_of tr0 (abort s)"
  by (erule aftermath_of_step) (rule abort_simps, simp)

lemma aftermath_of_resume:
  "aftermath_of tr0 s \<Longrightarrow> aftermath_of tr0 (snd (uploadSinglePart_resume c n pn s))"
  by (erule aftermath_of_step) (rule resume_effect, simp add: progress_of_def split: sum.splits)

lemma aftermath_of_await_reply:
  assumes "aftermath_of tr0 s" "await_reply c n s sched = Some (s', sched')"
  shows "aftermath_of tr0 s'"
  by (rule await_reply_preserves[where Inv = "aftermath_of tr0" and c = c and n = n,
        OF _ _ assms])
     (auto intro: aftermath_of_abort aftermath_of_resume)

lemma aftermath_of_after_settlement:
  "aftermath_of tr0 s \<Longrightarrow> aftermath_of tr0 (after_settlement c n s sched)"
proof (induction sched arbitrary: s)
  case Nil
  then show ?case by simp
next
  case (Cons ev evs)
  then show ?case
    by (cases ev) (auto intro: aftermath_of_abort aftermath_of_resume)
qed

lemma same_settings_abort: "same_settings this0 s \<Longrightarrow> same_settings this0 (abort s)"
  by (simp add: same_settings_def)

lemma same_settings_resume:
  "same_settings this0 s \<Longrightarrow> same_settings this0 (snd (uploadSinglePart_resume c n pn s))"
  by (simp add: same_settings_def resume_effect)

lemma same_settings_dispatch:
  assumes "same_settings this0 s" "dispatch_batch f idxs s = Inr s'"
  shows "same_settings this0 s'"
  using assms
  by (rule dispatch_batch_preserves[where Inv = "same_settings this0", rotated])
     (auto simp: same_settings_def start_effect)

lemma await_all_rejected:
  "same_settings this0 s \<Longrightarrow> await_all c n s sched = Rejected e s' sched' \<Longrightarrow>
   \<exists>pn. Settled pn \<in> set (trace s') \<and>
        snd (uploadPart this0 pn (put_replies c pn)) = Inl e"
proof (induction sched arbitrary: s)
  case Nil
  then show ?case by (simp split: if_splits)
next
  case (Cons ev evs)
  from Cons.prems(2) have ne: "inflight s \<noteq> []" by (auto split: if_splits)
  show ?case
  proof (cases ev)
    case AbortCall
    with ne Cons.prems(2) have "await_all c n (abort s) evs = Rejected e s' sched'" by simp
    from Cons.IH[OF same_settings_abort[OF Cons.prems(1)] this] show ?thesis .
  next
    case Reply
    with ne Cons.prems(2) have "await_all c n s evs = Rejected e s' sched'" by simp
    from Cons.IH[OF Cons.prems(1) this] show ?thesis .
  next
    case (PartSettles pn)
    show ?thesis
    proof (cases "pn \<in> set (inflight s)")
      case False
      with ne PartSettles Cons.prems(2) have "await_all c n s evs = Rejected e s' sched'"
        by simp
      from Cons.IH[OF Cons.prems(1) this] show ?thesis .
    next
      case True
      obtain r s1 where r: "uploadSinglePart_resume c n pn s = (r, s1)"
        by (cases "uploadSinglePart_resume c n pn s")
      then have s1: "s1 = snd (uploadSinglePart_resume c n pn s)"
        and r1: "r = fst (uploadSinglePart_resume c n pn s)" by simp_all
      show ?thesis
      proof (cases r)
        case None
        with ne True PartSettles r Cons.prems(2)
        have "await_all c n s1 evs = Rejected e s' sched'" by simp
        moreover have "same_settings this0 s1"
          unfolding s1 by (rule same_settings_resume[OF Cons.prems(1)])
        ultimately show ?thesis by (rule Cons.IH[rotated])
      next
        case (Some e')
        with ne True PartSettles r Cons.prems(2) have e: "e' = e" and s': "s' = s1" by simp_all
        from Some r1 e have "snd (uploadPart (obj s) pn (put_replies c pn)) = Inl e"
          by (simp add: resume_result split: sum.splits)
        moreover have "uploadPart (obj s) pn (put_replies c pn)
            = uploadPart this0 pn (put_replies c pn)"
          using Cons.prems(1) by (simp add: uploadPart_def same_settings_def)
        moreover have "Settled pn \<in> set (trace s')"
          unfolding s' s1 by (simp add: resume_effect)
        ultimately show ?thesis by auto
      qed
    qed
  qed
qed

lemma dispatch_batch_error:
  "dispatch_batch f idxs s = Inl (e, s') \<Longrightarrow>
   \<forall>i\<in>set idxs. i < length (presignedUrls (obj s)) \<Longrightarrow>
   e = UploadAborted \<and> aborted (obj s') \<or>
   e = TypeError \<and> None \<in> set (presignedUrls (obj s'))"
proof (induction idxs arbitrary: s)
  case Nil
  then show ?case by simp
next
  case (Cons index rest)
  from Cons.prems(2) have lt: "index < length (presignedUrls (obj s))" by simp
  show ?case
  proof (cases "presignedUrls (obj s) ! index")
    case None
    with lt Cons.prems(1) have "e = TypeError" "s' = s" by simp_all
    moreover from None lt have "None \<in> set (presignedUrls (obj s))"
      by (metis nth_mem)
    ultimately show ?thesis by simp
  next
    case (Some tok)
    show ?thesis
    proof (cases "uploadSinglePart_start f (index + 1) (url tok) s")
      case (Inl e')
      with lt Some Cons.prems(1) have "e' = e" "s' = s" by simp_all
      with Inl show ?thesis
        by (auto simp: uploadSinglePart_start_def Let_def split: if_splits)
    next
      case (Inr s1)
      with lt Some Cons.prems(1) have r: "dispatch_batch f rest s1 = Inl (e, s')" by simp
      from start_effect(1)[OF Inr] Cons.prems(2)
      have "\<forall>i\<in>set rest. i < length (presignedUrls (obj s1))" by simp
      from Cons.IH[OF r this] show ?thesis .
    qed
  qed
qed

lemma tokens_kept_abort: "presignedUrls (obj (abort s)) = presignedUrls (obj s)"
  by simp

lemma tokens_kept_dispatch:
  assumes "length (presignedUrls (obj s)) = n" "dispatch_batch f idxs s = Inr s'"
  shows "length (presignedUrls (obj s')) = n"
  using assms
  by (rule dispatch_batch_preserves[where Inv = "\<lambda>s. length (presignedUrls (obj s)) = n",
        rotated])
     (simp add: start_effect)

lemma tokens_kept_await_all:
  assumes "length (presignedUrls (obj s)) = n"
  shows "length (presignedUrls (obj (result_state (await_all c m s sched)))) = n"
  by (rule await_all_preserves[where Inv = "\<lambda>s. length (presignedUrls (obj s)) = n"])
     (simp_all add: resume_effect assms)

lemma upload_batches_rejected:
  "same_settings this0 s \<Longrightarrow> length (presignedUrls (obj s)) = n \<Longrightarrow>
   upload_batches c f n i s sched = Rejected e s' sched' \<Longrightarrow>
   (\<exists>pn. Settled pn \<in> set (trace s') \<and>
         snd (uploadPart this0 pn (put_replies c pn)) = Inl e) \<or>
   e = UploadAborted \<and> aborted (obj s') \<or>
   e = TypeError \<and> None \<in> set (presignedUrls (obj s'))"
proof (induction "n - i" arbitrary: i s sched rule: less_induct)
  case less
  note up = less.prems(3)[unfolded upload_batches.simps[of c f n i s sched]]
  from up have lt: "i < n" by (auto split: if_splits)
  show ?case
  proof (cases "aborted (obj s)")
    case True
    with lt up show ?thesis by auto
  next
    case False
    note na = this
    show ?thesis
    proof (cases "dispatch_batch f [i ..< min (i + maxConcurrent) n] s")
      case (Inl x)
      obtain e1 s1 where x: "x = (e1, s1)" by (cases x)
      with Inl lt na up have "e1 = e" "s1 = s'" by simp_all
      with Inl x have "dispatch_batch f [i ..< min (i + maxConcurrent) n] s = Inl (e, s')"
        by simp
      moreover have "\<forall>k\<in>set [i ..< min (i + maxConcurrent) n].
          k < length (presignedUrls (obj s))"
        using less.prems(2) by simp
      ultimately show ?thesis using dispatch_batch_error by blast
    next
      case (Inr s1)
      from same_settings_dispatch[OF less.prems(1) Inr] have i1: "same_settings this0 s1" .
      from tokens_kept_dispatch[OF less.prems(2) Inr]
      have t1: "length (presignedUrls (obj s1)) = n" .
      show ?thesis
      proof (cases "await_all c n s1 sched")
        case (Pending s2)
        with lt na Inr up show ?thesis by simp
      next
        case (Rejected e2 s2 sched2)
        with lt na Inr up have "e2 = e" "s2 = s'" by simp_all
        with Rejected await_all_rejected[OF i1, of c n sched e s' sched2] show ?thesis by simp
      next
        case (Fulfilled s2 sched2)
        have i2: "same_settings this0 s2"
          using await_all_preserves[of "same_settings this0" c n s1 sched,
              OF same_settings_abort same_settings_resume i1] Fulfilled by simp
        have t2: "length (presignedUrls (obj s2)) = n"
          using tokens_kept_await_all[OF t1, of c n sched] Fulfilled by simp
        have m: "n - (i + maxConcurrent) < n - i" using lt by (simp add: maxConcurrent_def)
        from lt na Inr Fulfilled up
        have "upload_batches c f n (i + maxConcurrent) s2 sched2 = Rejected e s' sched'"
          by simp
        from less.hyps[OF m i2 t2 this] show ?thesis .
      qed
    qed
  qed
qed

lemma same_settings_await_reply:
  assumes "same_settings this0 s" "await_reply c n s sched = Some (s', sched')"
  shows "same_settings this0 s'"
  by (rule await_reply_preserves[where Inv = "same_settings this0" and c = c and n = n,
        OF _ _ assms])
     (auto intro: same_settings_abort same_settings_resume)

lemma upload_body_raise_origin:
  assumes b: "upload_body c f (initial_state this0) sched = BRaise e s sched'"
  shows "getPresignedUrls this0 (file_size f) (init_reply c) = Inl e \<or>
         (\<exists>pn. Settled pn \<in> set (trace s) \<and>
               snd (uploadPart this0 pn (put_replies c pn)) = Inl e) \<or>
         completeUpload (complete_reply c) = Inl e \<or>
         e = UploadAborted \<and> aborted (obj s) \<or>
         e = TypeError \<and> None \<in> set (presignedUrls (obj s))"
proof -
  define s2 where "s2 = first_await c this0 f"
  have i2: "same_settings this0 s2"
    by (simp add: s2_def first_await_def same_settings_def initial_state_def)
  note body = b[unfolded upload_body_unfold[of c f this0 sched], folded s2_def]
  from body obtain s3 sched1 where a3: "await_reply c 0 s2 sched = Some (s3, sched1)"
    by (auto split: option.splits)
  from same_settings_await_reply[OF i2 a3] have i3: "same_settings this0 s3" .
  show ?thesis
  proof (cases "getPresignedUrls (obj s3) (file_size f) (init_reply c)")
    case (Inl e1)
    with a3 body have "e1 = e" by simp
    moreover have "chunkSize (obj s3) = chunkSize this0"
      using i3 by (simp add: same_settings_def)
    ultimately have "getPresignedUrls this0 (file_size f) (init_reply c) = Inl e"
      using Inl by (auto intro: getPresignedUrls_error_cong)
    then show ?thesis by simp
  next
    case (Inr this')
    define s6 where "s6 = batches_start c this' s3"
    define n where "n = length (presignedUrls this')"
    have i6: "same_settings this0 s6"
      using i3 getPresignedUrls_chunk[OF Inr]
      by (simp add: s6_def batches_start_def same_settings_def)
    have t6: "length (presignedUrls (obj s6)) = n"
      by (simp add: s6_def batches_start_def n_def)
    show ?thesis
    proof (cases "upload_batches c f n 0 s6 sched1")
      case (Pending s7)
      with a3 Inr body show ?thesis by (simp add: s6_def n_def)
    next
      case (Rejected e7 s7 sched2)
      with a3 Inr body have "e7 = e" "s7 = s" by (simp_all add: s6_def n_def)
      with Rejected upload_batches_rejected[OF i6 t6, of c f 0 sched1 e s sched2]
      show ?thesis by blast
    next
      case (Fulfilled s7 sched2)
      with a3 Inr body show ?thesis
        by (auto simp: s6_def n_def split: option.splits sum.splits)
    qed
  qed
qed

text \<open>
  Claim C5, amended. When the \<^verbatim>\<open>try\<close> block of \<^verbatim>\<open>upload\<close> throws an error \<open>e\<close> and a session id
  exists, then \<open>e\<close> is the error of a stage: of the authorization, of a part transfer that
  has used up its attempts, or of the finalization (or the upload was aborted, or a token
  is \<^verbatim>\<open>null\<close>). \<^verbatim>\<open>upload\<close> first sends the abort request, and \<^verbatim>\<open>abortUpload\<close> is fulfilled whatever
  the reply to it. When the request has settled, \<^verbatim>\<open>upload\<close> emits the \<^verbatim>\<open>error\<close> progress event
  and throws \<open>e\<close> itself. Between the abort request and the \<^verbatim>\<open>error\<close> event, and after the
  throw, the only events are those of part transfers still in flight, which settle and
  report \<^verbatim>\<open>uploading\<close>, and of calls of \<^verbatim>\<open>abort()\<close>: the \<^verbatim>\<open>error\<close> event is the last event
  of \<^verbatim>\<open>upload\<close> itself, not the last event of the run.
\<close>

theorem upload_failure_aborts_reports_rethrows:
  assumes "upload_body c f (initial_state this0) sched = BRaise e s sched'"
    and "truthy_str (uploadId (obj s))"
    and "await_reply c (length (partsArray s)) (abort_request s) sched' = Some (s2, sched'')"
  shows "(getPresignedUrls this0 (file_size f) (init_reply c) = Inl e \<or>
          (\<exists>pn. Settled pn \<in> set (trace s) \<and>
                snd (uploadPart this0 pn (put_replies c pn)) = Inl e) \<or>
          completeUpload (complete_reply c) = Inl e \<or>
          e = UploadAborted \<and> aborted (obj s) \<or>
          e = TypeError \<and> None \<in> set (presignedUrls (obj s))) \<and>
         abortUpload (abort_reply c) = Inr () \<and>
         snd (upload c this0 f sched) = Raised e \<and>
         phase_of (ErrorEvent e) = PError \<and>
         (\<exists>mid. trace (fst (upload c this0 f sched)) =
            trace s @ AbortRequest (uploadId (obj s)) # mid @ progress_of c (ErrorEvent e) \<and>
            filter (\<lambda>x. \<not> is_aftermath x) mid = []) \<and>
         aftermath_of (trace (fst (upload c this0 f sched))) (after_throw c this0 f sched)"
proof (intro conjI)
  show "getPresignedUrls this0 (file_size f) (init_reply c) = Inl e \<or>
          (\<exists>pn. Settled pn \<in> set (trace s) \<and>
                snd (uploadPart this0 pn (put_replies c pn)) = Inl e) \<or>
          completeUpload (complete_reply c) = Inl e \<or>
          e = UploadAborted \<and> aborted (obj s) \<or>
          e = TypeError \<and> None \<in> set (presignedUrls (obj s))"
    using assms(1) by (rule upload_body_raise_origin)
  show "abortUpload (abort_reply c) = Inr ()"
    by (simp add: abortUpload_def split: fetched.splits)
  show "snd (upload c this0 f sched) = Raised e"
    using assms by (simp add: upload_unfold)
  show "phase_of (ErrorEvent e) = PError" by simp
  have "aftermath_of (trace (abort_request s)) (abort_request s)"
    by (simp add: aftermath_of_def)
  from aftermath_of_await_reply[OF this assms(3)] obtain mid where
    "trace s2 = trace s @ AbortRequest (uploadId (obj s)) # mid"
    "filter (\<lambda>x. \<not> is_aftermath x) mid = []"
    by (auto simp: abort_request_def aftermath_of_def)
  then show "\<exists>mid. trace (fst (upload c this0 f sched)) =
      trace s @ AbortRequest (uploadId (obj s)) # mid @ progress_of c (ErrorEvent e) \<and>
      filter (\<lambda>x. \<not> is_aftermath x) mid = []"
    using assms by (simp add: upload_unfold progress_of_def)
  have "aftermath_of (trace (fst (upload c this0 f sched))) (fst (upload c this0 f sched))"
    by (simp add: aftermath_of_def)
  then have "aftermath_of (trace (fst (upload c this0 f sched)))
      (after_settlement c (length (partsArray s)) (fst (upload c this0 f sched)) sched'')"
    by (rule aftermath_of_after_settlement)
  then show "aftermath_of (trace (fst (upload c this0 f sched))) (after_throw c this0 f sched)"
    using assms by (simp add: after_throw_def)
qed

text \<open>
  Claim C5, as stated, fails: the \<^verbatim>\<open>error\<close> progress event is not final. Part 2 of a
  two-part upload fails after its attempts while part 1 is still in flight; \<^verbatim>\<open>upload\<close>
  sends the abort request, emits the \<^verbatim>\<open>error\<close> event and throws. Then part 1 settles, and
  the rest of \<^verbatim>\<open>uploadSinglePart\<close> emits a progress event with phase \<^verbatim>\<open>uploading\<close>.
\<close>

theorem error_event_not_final_counterexample:
  "snd (upload (example_env two_tokens part2_fails) (constructor no_options)
          (example_file 6291456) [Reply, PartSettles 2, Reply, PartSettles 1])
     = Raised NetworkError \<and>
   trace (after_throw (example_env two_tokens part2_fails) (constructor no_options)
          (example_file 6291456) [Reply, PartSettles 2, Reply, PartSettles 1]) =
     [ProgressEv Initiating, InitiateRequest 6291456 (Some 2), ProgressEv (UploadingStart 2),
      Dispatch 1 (Some ''u1'') (0, 5242880), Dispatch 2 (Some ''u2'') (5242880, 6291456),
      Settled 2, AbortRequest (Some ''id''), ProgressEv (ErrorEvent NetworkError),
      Settled 1, ProgressEv (Uploaded 1 2 1)] \<and>
   phase_of (Uploaded 1 2 1) = PUploading"
  by code_simp


text \<open>Three runs for C5, one for each stage: part 2 of a two-part upload fails after its
  attempts; the complete request is answered with an error status; the initiate request
  fails on an uploader that holds the session id of an earlier upload. In each run the
  abort request fails as well.\<close>

theorem upload_failure_aborts_reports_rethrows_witness:
  "snd (upload (example_env two_tokens part2_fails) (constructor no_options)
          (example_file 6291456) [Reply, PartSettles 2, Reply]) = Raised NetworkError \<and>
   trace (fst (upload (example_env two_tokens part2_fails) (constructor no_options)
          (example_file 6291456) [Reply, PartSettles 2, Reply])) =
     [ProgressEv Initiating, InitiateRequest 6291456 (Some 2), ProgressEv (UploadingStart 2),
      Dispatch 1 (Some ''u1'') (0, 5242880), Dispatch 2 (Some ''u2'') (5242880, 6291456),
      Settled 2, AbortRequest (Some ''id''), ProgressEv (ErrorEvent NetworkError)] \<and>
   snd (upload complete_fails_env (constructor no_options) (example_file 6291456)
          [Reply, PartSettles 1, PartSettles 2, Reply, Reply])
     = Raised (FailedToCompleteUpload ''no such upload'') \<and>
   trace (fst (upload complete_fails_env (constructor no_options) (example_file 6291456)
          [Reply, PartSettles 1, PartSettles 2, Reply, Reply])) =
     [ProgressEv Initiating, InitiateRequest 6291456 (Some 2), ProgressEv (UploadingStart 2),
      Dispatch 1 (Some ''u1'') (0, 5242880), Dispatch 2 (Some ''u2'') (5242880, 6291456),
      Settled 1, ProgressEv (Uploaded 1 2 1), Settled 2, ProgressEv (Uploaded 2 2 2),
      ProgressEv Completing,
      CompleteRequest (Some ''id'')
        [\<lparr> PartNumber = 1, ETag = ''e1'' \<rparr>, \<lparr> PartNumber = 2, ETag = ''e1'' \<rparr>],
      AbortRequest (Some ''id''),
      ProgressEv (ErrorEvent (FailedToCompleteUpload ''no such upload''))] \<and>
   snd (upload init_fails_env used_uploader (example_file 6291456) [Reply, Reply])
     = Raised NetworkError \<and>
   trace (fst (upload init_fails_env used_uploader (example_file 6291456) [Reply, Reply])) =
     [ProgressEv Initiating, InitiateRequest 6291456 (Some 2), AbortRequest (Some ''old''),
      ProgressEv (ErrorEvent NetworkError)]"
proof -
  define c1 where "c1 = example_env two_tokens part2_fails"
  define f where "f = example_file 6291456"
  define this1 where "this1 = constructor no_options"
  define s1 where "s1 = body_state (upload_body (example_env two_tokens part2_fails)
     (example_file 6291456) (initial_state (constructor no_options))
     [Reply, PartSettles 2, Reply])"
  define s2 where "s2 = body_state (upload_body complete_fails_env
     (example_file 6291456) (initial_state (constructor no_options))
     [Reply, PartSettles 1, PartSettles 2, Reply, Reply])"
  define s3 where "s3 = body_state (upload_body init_fails_env
     (example_file 6291456) (initial_state used_uploader) [Reply, Reply])"
  have b1: "upload_body c1 f (initial_state this1) [Reply, PartSettles 2, Reply]
      = BRaise NetworkError s1 [Reply]"
    unfolding c1_def f_def this1_def s1_def by code_simp
  have b2: "upload_body complete_fails_env f (initial_state this1)
      [Reply, PartSettles 1, PartSettles 2, Reply, Reply]
      = BRaise (FailedToCompleteUpload ''no such upload'') s2 [Reply]"
    unfolding f_def this1_def s2_def by code_simp
  have b3: "upload_body init_fails_env f (initial_state used_uploader) [Reply, Reply]
      = BRaise NetworkError s3 [Reply]"
    unfolding f_def s3_def by code_simp
  have u1: "truthy_str (uploadId (obj s1))" unfolding s1_def by code_simp
  have u2: "truthy_str (uploadId (obj s2))" unfolding s2_def by code_simp
  have u3: "truthy_str (uploadId (obj s3))" unfolding s3_def by code_simp
  have a: "await_reply c (length (partsArray s)) (abort_request s) [Reply]
      = Some (abort_request s, [])" for c s by simp
  have t1: "trace (fst (upload c1 this1 f [Reply, PartSettles 2, Reply])) =
     [ProgressEv Initiating, InitiateRequest 6291456 (Some 2), ProgressEv (UploadingStart 2),
      Dispatch 1 (Some ''u1'') (0, 5242880), Dispatch 2 (Some ''u2'') (5242880, 6291456),
      Settled 2, AbortRequest (Some ''id''), ProgressEv (ErrorEvent NetworkError)]"
    unfolding c1_def this1_def f_def by code_simp
  have t2: "trace (fst (upload complete_fails_env this1 f
      [Reply, PartSettles 1, PartSettles 2, Reply, Reply])) =
     [ProgressEv Initiating, InitiateRequest 6291456 (Some 2), ProgressEv (UploadingStart 2),
      Dispatch 1 (Some ''u1'') (0, 5242880), Dispatch 2 (Some ''u2'') (5242880, 6291456),
      Settled 1, ProgressEv (Uploaded 1 2 1), Settled 2, ProgressEv (Uploaded 2 2 2),
      ProgressEv Completing,
      CompleteRequest (Some ''id'')
        [\<lparr> PartNumber = 1, ETag = ''e1'' \<rparr>, \<lparr> PartNumber = 2, ETag = ''e1'' \<rparr>],
      AbortRequest (Some ''id''),
      ProgressEv (ErrorEvent (FailedToCompleteUpload ''no such upload''))]"
    unfolding this1_def f_def by code_simp
  have t3: "trace (fst (upload init_fails_env used_uploader f [Reply, Reply])) =
     [ProgressEv Initiating, InitiateRequest 6291456 (Some 2), AbortRequest (Some ''old''),
      ProgressEv (ErrorEvent NetworkError)]"
    unfolding f_def by code_simp
  note r1 = upload_failure_aborts_reports_rethrows[OF b1 u1 a]
  note r2 = upload_failure_aborts_reports_rethrows[OF b2 u2 a]
  note r3 = upload_failure_aborts_reports_rethrows[OF b3 u3 a]
  from r1 have o1: "snd (upload c1 this1 f [Reply, PartSettles 2, Reply]) = Raised NetworkError"
    by simp
  from r2 have o2: "snd (upload complete_fails_env this1 f
      [Reply, PartSettles 1, PartSettles 2, Reply, Reply])
      = Raised (FailedToCompleteUpload ''no such upload'')"
    by simp
  from r3 have o3: "snd (upload init_fails_env used_uploader f [Reply, Reply])
      = Raised NetworkError"
    by simp
  from o1 o2 o3 t1 t2 t3 show ?thesis unfolding c1_def this1_def f_def by simp
qed

subsection \<open>The parts submitted to finalization\<close>

lemma put_attempt_number: "put_attempt pn r = Inr p \<Longrightarrow> PartNumber p = pn"
  by (auto simp: put_attempt_def Let_def split: fetched.splits if_splits option.splits)

lemma loop_part_number:
  "snd (uploadPart_loop mr rd pn replies r) = Inr (Some p) \<Longrightarrow> PartNumber p = pn"
proof (induction mr rd pn replies r rule: uploadPart_loop.induct)
  case (1 mr rd pn replies retries)
  show ?case
  proof (cases "int retries < mr")
    case False
    with "1.prems" show ?thesis by (subst (asm) uploadPart_loop.simps) simp
  next
    case True
    show ?thesis
    proof (cases "put_attempt pn (replies retries)")
      case (Inr q)
      with True "1.prems" have "q = p" by (subst (asm) uploadPart_loop.simps) simp
      with Inr show ?thesis by (simp add: put_attempt_number)
    next
      case (Inl e)
      show ?thesis
      proof (cases "mr \<le> int (Suc retries)")
        case True
        with \<open>int retries < mr\<close> Inl "1.prems" show ?thesis
          by (subst (asm) uploadPart_loop.simps) simp
      next
        case False
        from "1.prems" \<open>int retries < mr\<close> Inl False
        have "snd (uploadPart_loop mr rd pn replies (Suc retries)) = Inr (Some p)"
          by (subst (asm) uploadPart_loop.simps) (auto split: prod.splits)
        then show ?thesis by (rule "1.IH"[OF \<open>int retries < mr\<close> Inl False])
      qed
    qed
  qed
qed

lemma parts_numbered_array_set:
  assumes "parts_numbered xs" "\<forall>q. v = Some q \<longrightarrow> PartNumber q = Suc i"
  shows "parts_numbered (array_set xs i v)"
proof (cases "i < length xs")
  case True
  then show ?thesis using assms
    by (auto simp: parts_numbered_def array_set_def nth_list_update)
next
  case False
  have "PartNumber q = Suc k"
    if "k < length (xs @ replicate (i - length xs) None @ [v])"
      and "(xs @ replicate (i - length xs) None @ [v]) ! k = Some q" for k q
  proof (cases "k < length xs")
    case True
    with that assms(1) show ?thesis by (simp add: parts_numbered_def nth_append)
  next
    case nx: False
    show ?thesis
    proof (cases "k - length xs < i - length xs")
      case True
      with nx that(2) show ?thesis by (simp add: nth_append)
    next
      case False
      with nx that(1) \<open>\<not> i < length xs\<close> have "k = i" by simp
      with nx that(2) \<open>\<not> i < length xs\<close> have "v = Some q" by (simp add: nth_append)
      with assms(2) \<open>k = i\<close> show ?thesis by simp
    qed
  qed
  then show ?thesis using False unfolding parts_numbered_def array_set_def by simp
qed

lemma numbered_defined_parts:
  assumes "length xs = n" "\<forall>k<n. xs ! k \<noteq> None" "parts_numbered xs"
  shows "map PartNumber (defined_parts xs) = [1 ..< Suc n]"
proof -
  have "\<forall>x\<in>set xs. x \<noteq> None" using assms(1,2) by (auto simp: in_set_conv_nth)
  then have d: "defined_parts xs = map the xs" by (simp add: defined_parts_def)
  show ?thesis
  proof (rule nth_equalityI)
    show "length (map PartNumber (defined_parts xs)) = length [1 ..< Suc n]"
      using assms(1) by (simp add: d)
  next
    fix k assume "k < length (map PartNumber (defined_parts xs))"
    then have k: "k < n" using assms(1) by (simp add: d)
    with assms(2) obtain q where q: "xs ! k = Some q" by auto
    with assms(1,3) k have "PartNumber q = Suc k" by (simp add: parts_numbered_def)
    with k q assms(1) show "map PartNumber (defined_parts xs) ! k = [1 ..< Suc n] ! k"
      by (simp add: d nth_upt del: upt_Suc)
  qed
qed

lemma dispatch_batch_effect:
  "dispatch_batch f idxs s = Inr s' \<Longrightarrow>
   obj s' = obj s \<and> partsArray s' = partsArray s \<and> inflight s' = inflight s @ map Suc idxs"
proof (induction idxs arbitrary: s)
  case Nil
  then show ?case by simp
next
  case (Cons index rest)
  from Cons.prems obtain u s1 where
    s1: "uploadSinglePart_start f (index + 1) u s = Inr s1"
    and r: "dispatch_batch f rest s1 = Inr s'"
    by (auto split: sum.splits if_splits option.splits)
  from Cons.IH[OF r] start_effect(1-3)[OF s1] show ?case by simp
qed

lemma covered_abort: "covered c mr rd n m s \<Longrightarrow> covered c mr rd n m (abort s)"
  by (simp add: covered_def)

lemma covered_resume:
  assumes ok: "\<forall>pn. 1 \<le> pn \<and> pn \<le> n \<longrightarrow>
            (\<exists>p. snd (uploadPart_loop mr rd pn (put_replies c pn) 0) = Inr (Some p))"
    and cov: "covered c mr rd n m s" and mem: "pn \<in> set (inflight s)"
  shows "covered c mr rd n m (snd (uploadSinglePart_resume c n' pn s))"
proof -
  from cov mem have rng: "1 \<le> pn" "pn \<le> n" by (auto simp: covered_def)
  with ok obtain p where "snd (uploadPart_loop mr rd pn (put_replies c pn) 0) = Inr (Some p)"
    by blast
  with cov have res: "snd (uploadPart (obj s) pn (put_replies c pn)) = Inr (Some p)"
    by (simp add: uploadPart_def covered_def)
  have len: "length (partsArray s) = n" using cov by (simp add: covered_def)
  have idx: "pn - 1 < length (partsArray s)" using rng len by simp
  have pa: "partsArray (snd (uploadSinglePart_resume c n' pn s)) = (partsArray s)[pn - 1 := Some p]"
    using res idx by (simp add: resume_effect array_set_def)
  have "Suc k \<in> set (remove1 pn (inflight s)) \<or> (partsArray s)[pn - 1 := Some p] ! k \<noteq> None"
    if "k < m" and "Suc k \<in> set (inflight s) \<or> partsArray s ! k \<noteq> None" for k
  proof (cases "Suc k = pn")
    case True
    then have "k = pn - 1" by simp
    with rng len show ?thesis by simp
  next
    case False
    with rng have "k \<noteq> pn - 1" by auto
    with False that(2) show ?thesis by (auto simp: in_set_remove1)
  qed
  moreover have "\<forall>x\<in>set (remove1 pn (inflight s)). 1 \<le> x \<and> x \<le> n"
    using cov by (auto simp: covered_def dest: notin_set_remove1)
  ultimately show ?thesis
    using cov unfolding covered_def
    by (simp add: resume_effect(1,2) pa len)
qed

lemma batches_cover:
  assumes ok: "\<forall>pn. 1 \<le> pn \<and> pn \<le> n \<longrightarrow>
            (\<exists>p. snd (uploadPart_loop mr rd pn (put_replies c pn) 0) = Inr (Some p))"
  shows "upload_batches c f n i s sched = Fulfilled s' sched' \<Longrightarrow>
         covered c mr rd n (min i n) s \<Longrightarrow> inflight s = [] \<Longrightarrow>
         covered c mr rd n n s' \<and> inflight s' = []"
proof (induction "n - i" arbitrary: i s sched rule: less_induct)
  case less
  show ?case
  proof (cases "i < n")
    case False
    then have "min i n = n" by simp
    with less.prems(2) have "covered c mr rd n n s" by simp
    with False less.prems(1,3) show ?thesis
      by (subst (asm) upload_batches.simps) simp
  next
    case True
    note lt = this
    from less.prems(1) lt have na: "\<not> aborted (obj s)"
      by (subst (asm) upload_batches.simps) (auto split: if_splits)
    define m where "m = min (i + maxConcurrent) n"
    from less.prems(1) lt na obtain s1 where
      d: "dispatch_batch f [i ..< m] s = Inr s1"
      by (subst (asm) upload_batches.simps) (auto simp: m_def split: sum.splits prod.splits)
    from less.prems(1) lt na d obtain s2 sched2 where
      a: "await_all c n s1 sched = Fulfilled s2 sched2"
      and rec: "upload_batches c f n (i + maxConcurrent) s2 sched2 = Fulfilled s' sched'"
      by (subst (asm) upload_batches.simps) (auto simp: m_def split: await_result.splits)
    note e = dispatch_batch_effect[OF d]
    have c1: "covered c mr rd n m s1"
      unfolding covered_def
    proof (intro conjI ballI allI impI)
      show "length (partsArray s1) = n" using less.prems(2) e by (simp add: covered_def)
      show "maxRetries (obj s1) = mr" using less.prems(2) e by (simp add: covered_def)
      show "retryDelay (obj s1) = rd" using less.prems(2) e by (simp add: covered_def)
    next
      fix pn assume "pn \<in> set (inflight s1)"
      then have "pn \<in> Suc ` {i ..< m}" using e less.prems(3) by simp
      then show "1 \<le> pn" "pn \<le> n" by (auto simp: m_def)
    next
      fix k assume k: "k < m"
      show "Suc k \<in> set (inflight s1) \<or> partsArray s1 ! k \<noteq> None"
      proof (cases "k < i")
        case True
        with less.prems(2,3) lt e show ?thesis by (auto simp: covered_def)
      next
        case False
        with k have "Suc k \<in> Suc ` {i ..< m}" by simp
        then show ?thesis using e less.prems(3) by simp
      qed
    qed
    have "covered c mr rd n m (result_state (await_all c n s1 sched))"
      by (rule await_all_preserves[where Inv = "covered c mr rd n m", OF _ _ c1])
         (auto intro: covered_abort covered_resume[OF ok])
    with a have c2: "covered c mr rd n m s2" by simp
    from a have e2: "inflight s2 = []" by (rule await_all_Fulfilled_inflight)
    have lt': "n - (i + maxConcurrent) < n - i" using lt by (simp add: maxConcurrent_def)
    from c2 have "covered c mr rd n (min (i + maxConcurrent) n) s2" by (simp add: m_def)
    from less.hyps[OF lt' rec this e2] show ?thesis .
  qed
qed


lemma sorted_inv_quiet:
  assumes "sorted_inv this0 N s" "trace s' = trace s @ es"
    "\<forall>uid ps. CompleteRequest uid ps \<notin> set es"
    "obj s' = obj s" "partsArray s' = partsArray s" "inflight s' = inflight s"
  shows "sorted_inv this0 N s'"
  using assms unfolding sorted_inv_def by auto

lemma sorted_inv_onProgress: "sorted_inv this0 N s \<Longrightarrow> sorted_inv this0 N (onProgress c p s)"
  by (rule sorted_inv_quiet[where s = s and es = "progress_of c p"])
     (simp_all add: progress_of_def)

lemma sorted_inv_abort: "sorted_inv this0 N s \<Longrightarrow> sorted_inv this0 N (abort s)"
  unfolding sorted_inv_def by auto

lemma sorted_inv_resume:
  assumes "sorted_inv this0 N s" "pn \<in> set (inflight s)"
  shows "sorted_inv this0 N (snd (uploadSinglePart_resume c n pn s))"
proof -
  from assms have pos: "1 \<le> pn" by (auto simp: sorted_inv_def)
  have num: "parts_numbered (partsArray (snd (uploadSinglePart_resume c n pn s)))"
  proof (cases "snd (uploadPart (obj s) pn (put_replies c pn))")
    case (Inl e)
    with assms(1) show ?thesis by (simp add: resume_effect sorted_inv_def)
  next
    case (Inr r)
    have "\<forall>q. r = Some q \<longrightarrow> PartNumber q = Suc (pn - 1)"
      using Inr pos by (auto simp: uploadPart_def dest: loop_part_number)
    with assms(1) have "parts_numbered (array_set (partsArray s) (pn - 1) r)"
      by (intro parts_numbered_array_set) (simp_all add: sorted_inv_def)
    with Inr show ?thesis by (simp add: resume_effect)
  qed
  have "\<forall>x\<in>set (remove1 pn (inflight s)). 1 \<le> x"
    using assms(1) by (auto simp: sorted_inv_def dest: notin_set_remove1)
  with assms(1) num show ?thesis
    unfolding sorted_inv_def
    by (auto simp: resume_effect progress_of_def split: sum.splits)
qed

lemma sorted_inv_dispatch:
  "sorted_inv this0 N s \<Longrightarrow> dispatch_batch f idxs s = Inr s' \<Longrightarrow> sorted_inv this0 N s'"
proof (induction idxs arbitrary: s)
  case Nil
  then show ?case by simp
next
  case (Cons index rest)
  from Cons.prems(2) obtain u s1 where
    s1: "uploadSinglePart_start f (index + 1) u s = Inr s1"
    and r: "dispatch_batch f rest s1 = Inr s'"
    by (auto split: sum.splits if_splits option.splits)
  have "sorted_inv this0 N s1"
    using Cons.prems(1) unfolding sorted_inv_def start_effect(1-4)[OF s1] by auto
  then show ?case using r by (rule Cons.IH)
qed

lemma sorted_inv_upload:
  assumes tp: "total_parts (file_size f) (chunkSize this0) = Some (int N)"
    and ok: "\<forall>pn. 1 \<le> pn \<and> pn \<le> N \<longrightarrow>
            (\<exists>p. snd (uploadPart this0 pn (put_replies c pn)) = Inr (Some p))"
  shows "sorted_inv this0 N (fst (upload c this0 f sched))"
proof (rule upload_invariant[where Inv = "sorted_inv this0 N"])
  show "sorted_inv this0 N (first_await c this0 f)"
    by (auto simp: first_await_def sorted_inv_def initial_state_def parts_numbered_def)
next
  fix s this'
  assume a: "sorted_inv this0 N s"
    and g: "getPresignedUrls (obj s) (file_size f) (init_reply c) = Inr this'"
  from getPresignedUrls_chunk[OF g] a
  show "sorted_inv this0 N (batches_start c this' s)"
    by (auto simp: batches_start_def sorted_inv_def parts_numbered_def)
next
  fix s6 s7 sched1 sched2
  assume i6: "sorted_inv this0 N s6" and i7: "sorted_inv this0 N s7"
    and inf6: "inflight s6 = []"
    and p6: "partsArray s6 = replicate (length (presignedUrls (obj s6))) None"
    and t6: "Some (int (length (presignedUrls (obj s6))))
               = total_parts (file_size f) (chunkSize (obj s6))"
    and b: "upload_batches c f (length (presignedUrls (obj s6))) 0 s6 sched1
               = Fulfilled s7 sched2"
  from i6 t6 tp have n: "length (presignedUrls (obj s6)) = N" by (simp add: sorted_inv_def)
  have ok': "\<forall>pn. 1 \<le> pn \<and> pn \<le> N \<longrightarrow>
     (\<exists>p. snd (uploadPart_loop (maxRetries this0) (retryDelay this0) pn (put_replies c pn) 0)
            = Inr (Some p))"
    using ok by (simp add: uploadPart_def)
  have c6: "covered c (maxRetries this0) (retryDelay this0) N (min 0 N) s6"
    using i6 inf6 p6 n by (simp add: covered_def sorted_inv_def)
  from batches_cover[OF ok' b[unfolded n] c6 inf6]
  have c7: "covered c (maxRetries this0) (retryDelay this0) N N s7" and inf7: "inflight s7 = []"
    by simp_all
  from c7 inf7 have "length (partsArray s7) = N" "\<forall>k<N. partsArray s7 ! k \<noteq> None"
    by (simp_all add: covered_def)
  moreover from i7 have "parts_numbered (partsArray s7)" by (simp add: sorted_inv_def)
  ultimately have "map PartNumber (defined_parts (partsArray s7)) = [1 ..< Suc N]"
    by (rule numbered_defined_parts)
  with i7 show "sorted_inv this0 N (complete_request c s7)"
    unfolding sorted_inv_def complete_request_def by auto
next
  fix s idxs s'
  assume "sorted_inv this0 N s" "dispatch_batch f idxs s = Inr s'"
  then show "sorted_inv this0 N s'" by (rule sorted_inv_dispatch)
next
  fix s
  assume "sorted_inv this0 N s"
  then show "sorted_inv this0 N (abort_request s)"
    unfolding sorted_inv_def abort_request_def by auto
qed (simp_all add: sorted_inv_abort sorted_inv_resume sorted_inv_onProgress)

text \<open>
  Claim C1. Let \<open>N = ceil (fileSize / chunkSize)\<close> and let the transfer of every part
  \<open>1..N\<close> succeed in the end. Then, for every order in which the transfers settle and
  every interleaving with calls of \<^verbatim>\<open>abort()\<close>, the list that \<^verbatim>\<open>upload\<close> passes to the
  complete request has the part numbers \<open>1, 2, ..., N\<close> in this order: ascending, one
  entry per part.
\<close>

theorem finalization_parts_sorted:
  assumes "total_parts (file_size f) (chunkSize this0) = Some (int N)"
    and "\<forall>pn. 1 \<le> pn \<and> pn \<le> N \<longrightarrow>
            (\<exists>p. snd (uploadPart this0 pn (put_replies c pn)) = Inr (Some p))"
    and "CompleteRequest uid ps \<in> set (trace (fst (upload c this0 f sched)))"
  shows "map PartNumber ps = [1 ..< Suc N]"
  using sorted_inv_upload[OF assms(1,2), of sched] assms(3)
  by (simp add: sorted_inv_def)

text \<open>An instance for C1: three parts whose transfers settle in the order 3, 1, 2.\<close>

theorem finalization_parts_sorted_witness:
  "total_parts (file_size (example_file 12582912)) (chunkSize (constructor no_options)) = Some 3 \<and>
   CompleteRequest (Some ''id'')
     [\<lparr> PartNumber = 1, ETag = ''e1'' \<rparr>, \<lparr> PartNumber = 2, ETag = ''e1'' \<rparr>,
      \<lparr> PartNumber = 3, ETag = ''e1'' \<rparr>]
     \<in> set (trace (fst (upload (example_env three_tokens (\<lambda>pn k. put_succeeds))
          (constructor no_options) (example_file 12582912)
          [Reply, PartSettles 3, PartSettles 1, PartSettles 2, Reply]))) \<and>
   map PartNumber
     [\<lparr> PartNumber = 1, ETag = ''e1'' \<rparr>, \<lparr> PartNumber = 2, ETag = ''e1'' \<rparr>,
      \<lparr> PartNumber = 3, ETag = ''e1'' \<rparr>] = [1 ..< Suc 3]"
proof -
  have a: "total_parts (file_size (example_file 12582912)) (chunkSize (constructor no_options))
      = Some (int 3)" by code_simp
  have b: "\<forall>pn. 1 \<le> pn \<and> pn \<le> 3 \<longrightarrow>
      (\<exists>p. snd (uploadPart (constructor no_options) pn
                  (put_replies (example_env three_tokens (\<lambda>pn k. put_succeeds)) pn))
            = Inr (Some p))"
    by (simp add: run_defaults example_env_def)
  have m: "CompleteRequest (Some ''id'')
     [\<lparr> PartNumber = 1, ETag = ''e1'' \<rparr>, \<lparr> PartNumber = 2, ETag = ''e1'' \<rparr>,
      \<lparr> PartNumber = 3, ETag = ''e1'' \<rparr>]
     \<in> set (trace (fst (upload (example_env three_tokens (\<lambda>pn k. put_succeeds))
          (constructor no_options) (example_file 12582912)
          [Reply, PartSettles 3, PartSettles 1, PartSettles 2, Reply])))"
    by code_simp
  from finalization_parts_sorted[OF a b m] a m show ?thesis by simp
qed

end
